theory Spec2Isabelle
  imports Main "HOL-Library.Word"
begin

unbundle bit_operations_syntax

section \<open>The Intel HEX record decoder of tools/hex-crypt/ihex_parser.c\<close>

text \<open>
  The decoder is a state machine over file-scope variables. The variables become one
  record, every function takes the record and returns the new one. Bytes are
  \<open>8 word\<close>, the address halves \<open>16 word\<close>, the absolute address \<open>32 word\<close>; where C
  promotes an operand to \<open>int\<close> before shifting, the model shifts in 32 bits and
  truncates on assignment, as the C does.
\<close>

subsection \<open>Constants\<close>

abbreviation START_CODE_STATE :: "8 word" where "START_CODE_STATE \<equiv> 0"
abbreviation BYTE_COUNT_0_STATE :: "8 word" where "BYTE_COUNT_0_STATE \<equiv> 1"
abbreviation BYTE_COUNT_1_STATE :: "8 word" where "BYTE_COUNT_1_STATE \<equiv> 2"
abbreviation ADDR_0_STATE :: "8 word" where "ADDR_0_STATE \<equiv> 3"
abbreviation ADDR_1_STATE :: "8 word" where "ADDR_1_STATE \<equiv> 4"
abbreviation ADDR_2_STATE :: "8 word" where "ADDR_2_STATE \<equiv> 5"
abbreviation ADDR_3_STATE :: "8 word" where "ADDR_3_STATE \<equiv> 6"
abbreviation RECORD_TYPE_0_STATE :: "8 word" where "RECORD_TYPE_0_STATE \<equiv> 7"
abbreviation RECORD_TYPE_1_STATE :: "8 word" where "RECORD_TYPE_1_STATE \<equiv> 8"
abbreviation DATA_STATE :: "8 word" where "DATA_STATE \<equiv> 9"
abbreviation CHECKSUM_0_STATE :: "8 word" where "CHECKSUM_0_STATE \<equiv> 10"
abbreviation CHECKSUM_1_STATE :: "8 word" where "CHECKSUM_1_STATE \<equiv> 11"

text \<open>\<open>INVALID_HEX_CHAR\<close> is the character \<open>'x'\<close>, code 120.\<close>

abbreviation INVALID_HEX_CHAR :: "8 word" where "INVALID_HEX_CHAR \<equiv> 120"

abbreviation IHEX_DATA_SIZE :: nat where "IHEX_DATA_SIZE \<equiv> 255"

text \<open>A C string literal as the bytes of its characters.\<close>

definition bytes :: "string \<Rightarrow> 8 word list" where
  "bytes cs = map of_char cs"

subsection \<open>HexToDec\<close>

text \<open>
  The character codes: \<open>'0'\<close> 48, \<open>'9'\<close> 57, \<open>'A'\<close> 65, \<open>'F'\<close> 70, \<open>'a'\<close> 97,
  \<open>'z'\<close> 122.
\<close>

definition HexToDec :: "8 word \<Rightarrow> 8 word" where
  "HexToDec h =
     (if 48 \<le> h \<and> h \<le> 57 then h - 48
      else if 65 \<le> h \<and> h \<le> 70 then h - 65 + 10
      else if 97 \<le> h \<and> h \<le> 122 then h - 97 + 10
      else INVALID_HEX_CHAR)"

subsection \<open>The session state\<close>

text \<open>
  Modelled from the spec: the type \<open>ihex_callback_fp\<close> is declared in ihex_parser.h,
  which is not among the sources. The spec gives the handler the signature
  (absolute address: unsigned 32-bit, payload: byte sequence, length: unsigned) to
  boolean. The payload argument is the pointer to the whole \<open>data\<close> array, so the
  model passes the whole array. A null pointer is \<open>None\<close>.
\<close>

type_synonym ihex_callback_fp = "32 word \<Rightarrow> 8 word list \<Rightarrow> nat \<Rightarrow> bool"

text \<open>
  The fields are the static variables of the file, under their names. The last field,
  \<open>calls\<close>, is not a variable of the program: it logs the arguments of every
  invocation of the callback, in order, so that theorems can speak about them.
\<close>

record parser =
  state :: "8 word"
  byte_count :: "8 word"
  address_lo :: "16 word"
  address_hi :: "16 word"
  ex_segment_addr_mode :: bool
  record_type :: "8 word"
  data :: "8 word list"
  data_size_in_nibble :: "16 word"
  temp_cs :: "8 word"
  calc_cs :: "8 word"
  calc_cs_toogle :: bool
  callback_fp :: "ihex_callback_fp option"
  calls :: "(32 word \<times> 8 word list \<times> nat) list"

text \<open>The state at program start: C zero-initialises static storage.\<close>

definition initial_parser :: parser where
  "initial_parser =
     \<lparr>state = 0, byte_count = 0, address_lo = 0, address_hi = 0,
      ex_segment_addr_mode = False, record_type = 0,
      data = replicate IHEX_DATA_SIZE 0, data_size_in_nibble = 0,
      temp_cs = 0, calc_cs = 0, calc_cs_toogle = False,
      callback_fp = None, calls = []\<rparr>"

definition TRANSFORM_ADDR :: "bool \<Rightarrow> 16 word \<Rightarrow> 16 word \<Rightarrow> 32 word" where
  "TRANSFORM_ADDR seg addr_hi addr_lo =
     (if seg then push_bit 4 (ucast addr_hi) + ucast addr_lo
      else push_bit 16 (ucast addr_hi) OR ucast addr_lo)"

definition ihex_reset_state :: "parser \<Rightarrow> parser" where
  "ihex_reset_state s =
     s\<lparr>state := 0, address_lo := 0, address_hi := 0, ex_segment_addr_mode := False\<rparr>"

definition ihex_set_callback_func :: "ihex_callback_fp option \<Rightarrow> parser \<Rightarrow> parser" where
  "ihex_set_callback_func fp s = s\<lparr>callback_fp := fp\<rparr>"

subsection \<open>One iteration of the loop of ihex_parser\<close>

text \<open>
  Every \<open>return false\<close> of the loop body is a value of \<open>ihex_error\<close>, one per
  place in the source. \<open>DataIndexOutOfRange\<close> is not a return of the source: it stands
  for a write \<open>data[b_index]\<close> outside the array, which C leaves undefined.
\<close>

datatype ihex_error =
    InvalidHexChar
  | BadStartCode
  | BadRecordTypeHigh
  | BadRecordTypeLow
  | ByteCountTooBig
  | SizeMismatch
  | ChecksumMismatch
  | CallbackRejected
  | BadState
  | DataIndexOutOfRange

text \<open>
  A failing iteration leaves the variables as they are at the \<open>return\<close>, so the error
  carries the state too.
\<close>

type_synonym outcome = "(ihex_error \<times> parser) + parser"

text \<open>\<open>(temp_cs << 4) | hc\<close>, truncated to eight bits by the addition into \<open>calc_cs\<close>.\<close>

definition cs_byte :: "8 word \<Rightarrow> 8 word \<Rightarrow> 8 word" where
  "cs_byte t hc = ucast (push_bit 4 (ucast t :: 32 word) OR ucast hc)"

text \<open>The nibble pairing and the running checksum, lines 163 to 171.\<close>

definition checksum_update :: "8 word \<Rightarrow> parser \<Rightarrow> parser" where
  "checksum_update hc s =
     (if \<not> calc_cs_toogle s then s\<lparr>temp_cs := hc, calc_cs_toogle := True\<rparr>
      else s\<lparr>calc_cs :=
                ucast ((ucast (calc_cs s) :: 32 word)
                       + (push_bit 4 (ucast (temp_cs s) :: 32 word) OR ucast hc)),
             calc_cs_toogle := False\<rparr>)"

text \<open>
  The case \<open>CHECKSUM_1_STATE\<close> of the switch, lines 260 to 296: the two validations,
  the address records, the callback for a data record, and the return to the start
  state. The debug output is compiled out.
\<close>

definition finish_record :: "parser \<Rightarrow> outcome" where
  "finish_record s =
     (if 2 * unat (byte_count s) \<noteq> unat (data_size_in_nibble s)
      then Inl (SizeMismatch, s)
      else if calc_cs s \<noteq> 0 then Inl (ChecksumMismatch, s)
      else
        let s =
          (if record_type s = 2 then
             s\<lparr>address_hi :=
                  ucast (push_bit 8 (ucast (data s ! 0) :: 32 word) OR ucast (data s ! 1)),
               ex_segment_addr_mode := True\<rparr>
           else if record_type s = 4 then
             s\<lparr>address_hi :=
                  ucast (push_bit 8 (ucast (data s ! 0) :: 32 word) OR ucast (data s ! 1)),
               ex_segment_addr_mode := False\<rparr>
           else s) in
        if record_type s = 0 \<and> callback_fp s \<noteq> None then
          let address = TRANSFORM_ADDR (ex_segment_addr_mode s) (address_hi s) (address_lo s);
              len = unat (drop_bit 1 (data_size_in_nibble s));
              s = s\<lparr>calls := calls s @ [(address, data s, len)]\<rparr> in
          if \<not> (the (callback_fp s)) address (data s) len
          then Inl (CallbackRejected, s)
          else Inr (s\<lparr>state := START_CODE_STATE\<rparr>)
        else Inr (s\<lparr>state := START_CODE_STATE\<rparr>))"

text \<open>The \<open>switch (state)\<close>, lines 174 to 300; \<open>hc\<close> is not read in the first case
  and in the default case.\<close>

definition state_switch :: "8 word \<Rightarrow> 8 word \<Rightarrow> parser \<Rightarrow> outcome" where
  "state_switch c hc s =
     (if state s = START_CODE_STATE then
        (if c = 13 \<or> c = 10 then Inr s
         else if c = 58 then
           Inr (s\<lparr>byte_count := 0, record_type := 0, address_lo := 0,
                  data := replicate IHEX_DATA_SIZE 0, data_size_in_nibble := 0,
                  state := state s + 1\<rparr>)
         else Inl (BadStartCode, s))
      else if state s = BYTE_COUNT_0_STATE \<or> state s = BYTE_COUNT_1_STATE then
        Inr (s\<lparr>byte_count := ucast (push_bit 4 (ucast (byte_count s) :: 32 word) OR ucast hc),
               state := state s + 1\<rparr>)
      else if state s = ADDR_0_STATE \<or> state s = ADDR_1_STATE
              \<or> state s = ADDR_2_STATE \<or> state s = ADDR_3_STATE then
        Inr (s\<lparr>address_lo := ucast (push_bit 4 (ucast (address_lo s) :: 32 word) OR ucast hc),
               state := state s + 1\<rparr>)
      else if state s = RECORD_TYPE_0_STATE then
        (if hc \<noteq> 0 then Inl (BadRecordTypeHigh, s)
         else Inr (s\<lparr>state := state s + 1\<rparr>))
      else if state s = RECORD_TYPE_1_STATE then
        (if \<not> (hc \<le> 5 \<or> hc = 0xE) then Inl (BadRecordTypeLow, s)
         else
           let s = s\<lparr>record_type := hc\<rparr> in
           if byte_count s = 0 then Inr (s\<lparr>state := CHECKSUM_0_STATE\<rparr>)
           else if unat (byte_count s) > IHEX_DATA_SIZE then Inl (ByteCountTooBig, s)
           else Inr (s\<lparr>state := state s + 1\<rparr>))
      else if state s = DATA_STATE then
        (let b_index = (ucast (drop_bit 1 (data_size_in_nibble s)) :: 8 word) in
         if unat b_index < length (data s) then
           let s = s\<lparr>data := (data s)
                        [unat b_index :=
                           ucast (push_bit 4 (ucast (data s ! unat b_index) :: 32 word)
                                  OR ucast hc)],
                    data_size_in_nibble := data_size_in_nibble s + 1\<rparr> in
           if unat (drop_bit 1 (data_size_in_nibble s)) \<ge> unat (byte_count s)
           then Inr (s\<lparr>state := state s + 1\<rparr>)
           else Inr s
         else Inl (DataIndexOutOfRange, s))
      else if state s = CHECKSUM_0_STATE then
        Inr (s\<lparr>state := state s + 1\<rparr>)
      else if state s = CHECKSUM_1_STATE then finish_record s
      else Inl (BadState, s))"

text \<open>
  The body of the \<open>for\<close> loop after the test for the null byte: the \<open>if\<close> chain of
  lines 151 to 172, then the switch.
\<close>

definition ihex_step :: "parser \<Rightarrow> 8 word \<Rightarrow> outcome" where
  "ihex_step s c =
     (if state s = START_CODE_STATE then
        state_switch c 0 (s\<lparr>calc_cs := 0, calc_cs_toogle := False\<rparr>)
      else if BYTE_COUNT_0_STATE \<le> state s \<and> state s \<le> CHECKSUM_1_STATE then
        (let hc = HexToDec c in
         if hc = INVALID_HEX_CHAR then Inl (InvalidHexChar, s)
         else state_switch c hc (checksum_update hc s))
      else state_switch c 0 s)"

subsection \<open>ihex_parser\<close>

text \<open>
  The loop over the bytes read so far: a null byte returns true at once, a failing
  iteration returns false, the end of the bytes returns true.
\<close>

fun ihex_loop :: "parser \<Rightarrow> 8 word list \<Rightarrow> outcome" where
  "ihex_loop s [] = Inr s"
| "ihex_loop s (c # cs) =
     (if c = 0 then Inr s
      else case ihex_step s c of
             Inl e \<Rightarrow> Inl e
           | Inr s' \<Rightarrow> ihex_loop s' cs)"

text \<open>
  \<open>ihex_parser\<close> reads \<open>steambuf[0]\<close> to \<open>steambuf[size - 1]\<close>. A \<open>size\<close> beyond the
  buffer makes the C read out of bounds, which is undefined: the model answers
  \<open>None\<close>. \<open>Inr\<close> is the return value true, \<open>Inl\<close> is false.
\<close>

definition ihex_parser :: "parser \<Rightarrow> 8 word list \<Rightarrow> 32 word \<Rightarrow> outcome option" where
  "ihex_parser s steambuf sz =
     (if unat sz \<le> length steambuf
      then Some (ihex_loop s (take (unat sz) steambuf))
      else None)"

definition returned_true :: "outcome \<Rightarrow> bool" where
  "returned_true r = (case r of Inl _ \<Rightarrow> False | Inr _ \<Rightarrow> True)"

definition final_state :: "outcome \<Rightarrow> parser" where
  "final_state r = (case r of Inl (e, s) \<Rightarrow> s | Inr s \<Rightarrow> s)"

section \<open>Sessions of a client\<close>

text \<open>
  A client of the decoder calls its three public functions in some order, starting from
  the zero-initialised variables. A call of \<open>ihex_parser\<close> leaves the variables as they
  are at its return, whether it returns true or false. The session is undefined
  (\<open>None\<close>) once a call passes a size beyond its buffer.
\<close>

datatype client_call =
    Reset
  | SetCallback "ihex_callback_fp option"
  | Feed "8 word list" "32 word"

fun client_step :: "parser \<Rightarrow> client_call \<Rightarrow> parser option" where
  "client_step s Reset = Some (ihex_reset_state s)"
| "client_step s (SetCallback fp) = Some (ihex_set_callback_func fp s)"
| "client_step s (Feed steambuf sz) = map_option final_state (ihex_parser s steambuf sz)"

fun run :: "parser \<Rightarrow> client_call list \<Rightarrow> parser option" where
  "run s [] = Some s"
| "run s (a # as) = (case client_step s a of None \<Rightarrow> None | Some s' \<Rightarrow> run s' as)"

text \<open>
  The relation between the state of the machine, the declared byte count and the count
  of nibbles written, used as the invariant of every session.
\<close>

definition data_inv :: "parser \<Rightarrow> bool" where
  "data_inv s \<longleftrightarrow>
     length (data s) = IHEX_DATA_SIZE
     \<and> state s \<le> CHECKSUM_1_STATE
     \<and> (BYTE_COUNT_0_STATE \<le> state s \<and> state s \<le> RECORD_TYPE_1_STATE
          \<longrightarrow> data_size_in_nibble s = 0)
     \<and> (state s = DATA_STATE
          \<longrightarrow> unat (data_size_in_nibble s) < 2 * unat (byte_count s))
     \<and> (state s = CHECKSUM_0_STATE \<or> state s = CHECKSUM_1_STATE
          \<longrightarrow> unat (data_size_in_nibble s) = 2 * unat (byte_count s))"

text \<open>
  Two states from which the decoder behaves alike: the fields that the code reads before
  it writes them agree. In the start state the record fields and the checksum fields
  are all written before they are read; \<open>temp_cs\<close> is read only while the toggle is
  set. The log of the callback is left out. Two outcomes are alike when they return the
  same value, fail for the same cause, add the same invocations to the log and, on
  success, leave states that are alike.
\<close>

definition same_session :: "parser \<Rightarrow> parser \<Rightarrow> bool" where
  "same_session s t \<longleftrightarrow>
     state s = state t \<and> address_hi s = address_hi t
     \<and> ex_segment_addr_mode s = ex_segment_addr_mode t
     \<and> callback_fp s = callback_fp t
     \<and> (state s \<noteq> START_CODE_STATE \<longrightarrow>
           byte_count s = byte_count t \<and> address_lo s = address_lo t
           \<and> record_type s = record_type t \<and> data s = data t
           \<and> data_size_in_nibble s = data_size_in_nibble t
           \<and> calc_cs s = calc_cs t \<and> calc_cs_toogle s = calc_cs_toogle t
           \<and> (calc_cs_toogle s \<longrightarrow> temp_cs s = temp_cs t))"

definition same_outcome :: "parser \<Rightarrow> parser \<Rightarrow> outcome \<Rightarrow> outcome \<Rightarrow> bool" where
  "same_outcome s t r q \<longleftrightarrow>
     (\<exists>tr. calls (final_state r) = calls s @ tr \<and> calls (final_state q) = calls t @ tr)
     \<and> (case r of
           Inl (e, s') \<Rightarrow> (case q of Inl (e', t') \<Rightarrow> e = e' | Inr t' \<Rightarrow> False)
         | Inr s' \<Rightarrow> (case q of Inl (e', t') \<Rightarrow> False | Inr t' \<Rightarrow> same_session s' t'))"

section \<open>The text of a record\<close>

text \<open>
  The quantities that the decoder computes from the characters of one record, as
  functions of the characters. \<open>addr_shift\<close> is the assignment of line 207;
  \<open>address_field\<close> is \<open>address_lo\<close> after the four address digits. \<open>decode_pairs\<close>
  gives the bytes that the pairs of digits add to the checksum, through \<open>cs_byte\<close>.
\<close>

definition addr_shift :: "16 word \<Rightarrow> 8 word \<Rightarrow> 16 word" where
  "addr_shift a hc = ucast (push_bit 4 (ucast a :: 32 word) OR ucast hc)"

definition address_field :: "8 word \<Rightarrow> 8 word \<Rightarrow> 8 word \<Rightarrow> 8 word \<Rightarrow> 16 word" where
  "address_field a1 a2 a3 a4 =
     addr_shift (addr_shift (addr_shift (addr_shift 0 (HexToDec a1)) (HexToDec a2))
                   (HexToDec a3)) (HexToDec a4)"

fun decode_pairs :: "8 word list \<Rightarrow> 8 word list" where
  "decode_pairs (a # b # cs) = cs_byte (HexToDec a) (HexToDec b) # decode_pairs cs"
| "decode_pairs cs = []"

text \<open>
  \<open>body\<close> stands for the characters of a record after its colon: two digits of byte
  count, four of address, two of record type, the payload digits and two checksum
  digits. The fields below read it as the decoder does.
\<close>

definition rec_count :: "8 word list \<Rightarrow> 8 word" where
  "rec_count body = cs_byte (HexToDec (body ! 0)) (HexToDec (body ! 1))"

definition rec_address :: "8 word list \<Rightarrow> 16 word" where
  "rec_address body = address_field (body ! 2) (body ! 3) (body ! 4) (body ! 5)"

definition rec_type :: "8 word list \<Rightarrow> 8 word" where
  "rec_type body = HexToDec (body ! 7)"

definition rec_payload :: "8 word list \<Rightarrow> 8 word list" where
  "rec_payload body = decode_pairs (take (2 * unat (rec_count body)) (drop 8 body))"

text \<open>
  A body has the shape of a record when all its characters pass \<open>HexToDec\<close> and it
  holds exactly the payload digits that its byte count declares. Its type is accepted
  when it passes the tests of lines 213 and 221.
\<close>

definition record_shaped :: "8 word list \<Rightarrow> bool" where
  "record_shaped body \<longleftrightarrow>
     (\<forall>c\<in>set body. HexToDec c \<noteq> INVALID_HEX_CHAR)
     \<and> length body = 10 + 2 * unat (rec_count body)"

definition type_accepted :: "8 word list \<Rightarrow> bool" where
  "type_accepted body \<longleftrightarrow>
     HexToDec (body ! 6) = 0 \<and> (rec_type body \<le> 5 \<or> rec_type body = 0xE)"

text \<open>
  The variables at line 261, when the last checksum digit of \<open>body\<close> has been paired,
  in a decoder that was in the start state \<open>s\<close> at the colon.
\<close>

definition at_checksum :: "parser \<Rightarrow> 8 word list \<Rightarrow> parser" where
  "at_checksum s body =
     s\<lparr>state := CHECKSUM_1_STATE,
       byte_count := rec_count body,
       address_lo := rec_address body,
       record_type := rec_type body,
       data := rec_payload body @ replicate (IHEX_DATA_SIZE - unat (rec_count body)) 0,
       data_size_in_nibble := of_nat (2 * unat (rec_count body)),
       temp_cs := HexToDec (body ! (length body - 2)),
       calc_cs := sum_list (decode_pairs body),
       calc_cs_toogle := False\<rparr>"

section \<open>Observing the callback\<close>

text \<open>
  A callback that accepts every block, and the addresses that a call of \<open>ihex_parser\<close>
  has left in the log of the callback.
\<close>

definition accept_all :: ihex_callback_fp where
  "accept_all address buf len = True"

definition callback_addresses :: "outcome option \<Rightarrow> 32 word list option" where
  "callback_addresses r = map_option (\<lambda>x. map fst (calls (final_state x))) r"

text \<open>
  The body of a record with the two digits of payload byte \<open>j\<close> replaced by the
  characters \<open>a\<close> and \<open>b\<close>.
\<close>

definition set_payload_byte :: "nat \<Rightarrow> 8 word \<Rightarrow> 8 word \<Rightarrow> 8 word list \<Rightarrow> 8 word list" where
  "set_payload_byte j a b body = body[8 + 2 * j := a, 9 + 2 * j := b]"

text \<open>
  A decoder between the byte count and the checksum of a record that declares a payload:
  \<open>in_fields\<close> says it is in an address, record type or data state with a nonzero
  byte count and a consistent nibble count, \<open>digits_left\<close> counts the digits it will
  take before it reaches the checksum.
\<close>

definition digits_left :: "parser \<Rightarrow> nat" where
  "digits_left s =
     (if state s = DATA_STATE
      then 2 * unat (byte_count s) - unat (data_size_in_nibble s)
      else 9 - unat (state s) + 2 * unat (byte_count s))"

definition in_fields :: "parser \<Rightarrow> bool" where
  "in_fields s \<longleftrightarrow>
     3 \<le> unat (state s) \<and> unat (state s) \<le> 9 \<and> 0 < unat (byte_count s)
     \<and> (if state s = DATA_STATE
          then unat (data_size_in_nibble s) < 2 * unat (byte_count s)
          else data_size_in_nibble s = 0)"

section \<open>The loop body, state by state\<close>

lemma state_cases:
  fixes x :: "8 word"
  obtains "x = 0" | "x = 1" | "x = 2" | "x = 3" | "x = 4" | "x = 5" | "x = 6"
    | "x = 7" | "x = 8" | "x = 9" | "x = 10" | "x = 11" | "11 < x"
proof -
  have "x = 0 \<or> x = 1 \<or> x = 2 \<or> x = 3 \<or> x = 4 \<or> x = 5 \<or> x = 6
    \<or> x = 7 \<or> x = 8 \<or> x = 9 \<or> x = 10 \<or> x = 11 \<or> 11 < x"
    unfolding word_unat_eq_iff word_less_nat_alt by simp arith
  then show ?thesis using that by blast
qed

lemma byte_count_le: "unat (byte_count s) \<le> IHEX_DATA_SIZE"
  using unsigned_less [of "byte_count s", where 'a=nat] by simp

lemma checksum_update_fields [simp]:
  "state (checksum_update hc s) = state s"
  "byte_count (checksum_update hc s) = byte_count s"
  "address_lo (checksum_update hc s) = address_lo s"
  "address_hi (checksum_update hc s) = address_hi s"
  "ex_segment_addr_mode (checksum_update hc s) = ex_segment_addr_mode s"
  "record_type (checksum_update hc s) = record_type s"
  "data (checksum_update hc s) = data s"
  "data_size_in_nibble (checksum_update hc s) = data_size_in_nibble s"
  "callback_fp (checksum_update hc s) = callback_fp s"
  "calls (checksum_update hc s) = calls s"
  by (simp_all add: checksum_update_def)

lemma step_START:
  "state s = START_CODE_STATE \<Longrightarrow>
   ihex_step s c =
     (if c = 13 \<or> c = 10 then Inr (s\<lparr>calc_cs := 0, calc_cs_toogle := False\<rparr>)
      else if c = 58 then
        Inr (s\<lparr>calc_cs := 0, calc_cs_toogle := False, byte_count := 0, record_type := 0,
               address_lo := 0, data := replicate IHEX_DATA_SIZE 0,
               data_size_in_nibble := 0, state := BYTE_COUNT_0_STATE\<rparr>)
      else Inl (BadStartCode, s\<lparr>calc_cs := 0, calc_cs_toogle := False\<rparr>))"
  by (simp add: ihex_step_def state_switch_def)

lemma step_invalid_hex:
  "BYTE_COUNT_0_STATE \<le> state s \<Longrightarrow> state s \<le> CHECKSUM_1_STATE \<Longrightarrow>
   HexToDec c = INVALID_HEX_CHAR \<Longrightarrow> ihex_step s c = Inl (InvalidHexChar, s)"
  by (auto simp add: ihex_step_def)

lemma step_bad_state:
  "CHECKSUM_1_STATE < state s \<Longrightarrow> ihex_step s c = Inl (BadState, s)"
  by (auto simp add: ihex_step_def state_switch_def)

lemma step_BYTE_COUNT:
  "state s = BYTE_COUNT_0_STATE \<or> state s = BYTE_COUNT_1_STATE \<Longrightarrow>
   HexToDec c \<noteq> INVALID_HEX_CHAR \<Longrightarrow>
   ihex_step s c =
     Inr ((checksum_update (HexToDec c) s)
            \<lparr>byte_count :=
               ucast (push_bit 4 (ucast (byte_count s) :: 32 word) OR ucast (HexToDec c)),
             state := state s + 1\<rparr>)"
  by ((elim disjE)?, simp_all add: ihex_step_def state_switch_def Let_def)

lemma step_ADDR:
  "state s = ADDR_0_STATE \<or> state s = ADDR_1_STATE
     \<or> state s = ADDR_2_STATE \<or> state s = ADDR_3_STATE \<Longrightarrow>
   HexToDec c \<noteq> INVALID_HEX_CHAR \<Longrightarrow>
   ihex_step s c =
     Inr ((checksum_update (HexToDec c) s)
            \<lparr>address_lo :=
               ucast (push_bit 4 (ucast (address_lo s) :: 32 word) OR ucast (HexToDec c)),
             state := state s + 1\<rparr>)"
  by ((elim disjE)?, simp_all add: ihex_step_def state_switch_def Let_def)

lemma step_RECORD_TYPE_0:
  "state s = RECORD_TYPE_0_STATE \<Longrightarrow> HexToDec c \<noteq> INVALID_HEX_CHAR \<Longrightarrow>
   ihex_step s c =
     (if HexToDec c \<noteq> 0 then Inl (BadRecordTypeHigh, checksum_update (HexToDec c) s)
      else Inr ((checksum_update (HexToDec c) s)\<lparr>state := RECORD_TYPE_1_STATE\<rparr>))"
  by ((elim disjE)?, simp_all add: ihex_step_def state_switch_def Let_def)

lemma step_RECORD_TYPE_1:
  "state s = RECORD_TYPE_1_STATE \<Longrightarrow> HexToDec c \<noteq> INVALID_HEX_CHAR \<Longrightarrow>
   ihex_step s c =
     (if \<not> (HexToDec c \<le> 5 \<or> HexToDec c = 0xE)
      then Inl (BadRecordTypeLow, checksum_update (HexToDec c) s)
      else if byte_count s = 0
      then Inr ((checksum_update (HexToDec c) s)
                  \<lparr>record_type := HexToDec c, state := CHECKSUM_0_STATE\<rparr>)
      else Inr ((checksum_update (HexToDec c) s)
                  \<lparr>record_type := HexToDec c, state := DATA_STATE\<rparr>))"
  using byte_count_le [of s]
  by ((elim disjE)?, simp_all add: ihex_step_def state_switch_def Let_def)

lemma step_DATA:
  "state s = DATA_STATE \<Longrightarrow> HexToDec c \<noteq> INVALID_HEX_CHAR \<Longrightarrow>
   ihex_step s c =
     (let b_index = (ucast (drop_bit 1 (data_size_in_nibble s)) :: 8 word) in
      if unat b_index < length (data s) then
        (if unat (byte_count s) \<le> unat (drop_bit 1 (data_size_in_nibble s + 1))
         then Inr ((checksum_update (HexToDec c) s)
                \<lparr>data := (data s)
                   [unat b_index :=
                      ucast (push_bit 4 (ucast (data s ! unat b_index) :: 32 word)
                             OR ucast (HexToDec c))],
                 data_size_in_nibble := data_size_in_nibble s + 1,
                 state := CHECKSUM_0_STATE\<rparr>)
         else Inr ((checksum_update (HexToDec c) s)
                \<lparr>data := (data s)
                   [unat b_index :=
                      ucast (push_bit 4 (ucast (data s ! unat b_index) :: 32 word)
                             OR ucast (HexToDec c))],
                 data_size_in_nibble := data_size_in_nibble s + 1\<rparr>))
      else Inl (DataIndexOutOfRange, checksum_update (HexToDec c) s))"
  by ((elim disjE)?, simp_all add: ihex_step_def state_switch_def Let_def)

lemma step_CHECKSUM_0:
  "state s = CHECKSUM_0_STATE \<Longrightarrow> HexToDec c \<noteq> INVALID_HEX_CHAR \<Longrightarrow>
   ihex_step s c = Inr ((checksum_update (HexToDec c) s)\<lparr>state := CHECKSUM_1_STATE\<rparr>)"
  by ((elim disjE)?, simp_all add: ihex_step_def state_switch_def Let_def)

lemma step_CHECKSUM_1:
  "state s = CHECKSUM_1_STATE \<Longrightarrow> HexToDec c \<noteq> INVALID_HEX_CHAR \<Longrightarrow>
   ihex_step s c = finish_record (checksum_update (HexToDec c) s)"
  by (simp add: ihex_step_def state_switch_def Let_def)

lemma step_not_too_big: "ihex_step s c \<noteq> Inl (ByteCountTooBig, s')"
proof (cases "state s" rule: state_cases)
  case 1 then show ?thesis by (simp add: step_START)
next
  case 13 then show ?thesis by (simp add: step_bad_state)
next
  case 2 then show ?thesis by (cases "HexToDec c = INVALID_HEX_CHAR") (simp_all add: step_invalid_hex step_BYTE_COUNT)
next
  case 3 then show ?thesis by (cases "HexToDec c = INVALID_HEX_CHAR") (simp_all add: step_invalid_hex step_BYTE_COUNT)
next
  case 4 then show ?thesis by (cases "HexToDec c = INVALID_HEX_CHAR") (simp_all add: step_invalid_hex step_ADDR)
next
  case 5 then show ?thesis by (cases "HexToDec c = INVALID_HEX_CHAR") (simp_all add: step_invalid_hex step_ADDR)
next
  case 6 then show ?thesis by (cases "HexToDec c = INVALID_HEX_CHAR") (simp_all add: step_invalid_hex step_ADDR)
next
  case 7 then show ?thesis by (cases "HexToDec c = INVALID_HEX_CHAR") (simp_all add: step_invalid_hex step_ADDR)
next
  case 8 then show ?thesis by (cases "HexToDec c = INVALID_HEX_CHAR") (simp_all add: step_invalid_hex step_RECORD_TYPE_0)
next
  case 9 then show ?thesis by (cases "HexToDec c = INVALID_HEX_CHAR") (simp_all add: step_invalid_hex step_RECORD_TYPE_1)
next
  case 10 then show ?thesis by (cases "HexToDec c = INVALID_HEX_CHAR") (simp_all add: step_invalid_hex step_DATA Let_def)
next
  case 11 then show ?thesis by (cases "HexToDec c = INVALID_HEX_CHAR") (simp_all add: step_invalid_hex step_CHECKSUM_0)
next
  case 12 then show ?thesis by (cases "HexToDec c = INVALID_HEX_CHAR") (simp_all add: step_invalid_hex step_CHECKSUM_1 finish_record_def Let_def)
qed

lemma loop_not_too_big: "ihex_loop s cs \<noteq> Inl (ByteCountTooBig, s')"
  by (induction cs arbitrary: s) (auto simp: step_not_too_big split: sum.splits)

section \<open>The byte count never exceeds the payload buffer\<close>

text \<open>
  Claim C9. \<open>byte_count\<close> is an eight-bit variable and the payload buffer holds 255
  bytes, so the comparison \<open>byte_count > sizeof(data)\<close> of line 232 is false in every
  state: no iteration of the loop and no call of \<open>ihex_parser\<close> returns false through
  that branch, whatever the state, the buffer and the size.
\<close>

theorem byte_count_branch_dead:
  "unat (byte_count s) \<le> IHEX_DATA_SIZE
   \<and> ihex_step s c \<noteq> Inl (ByteCountTooBig, s')
   \<and> ihex_parser s steambuf sz \<noteq> Some (Inl (ByteCountTooBig, s'))"
proof (intro conjI)
  show "unat (byte_count s) \<le> IHEX_DATA_SIZE"
    by (rule byte_count_le)
  show "ihex_step s c \<noteq> Inl (ByteCountTooBig, s')"
    by (rule step_not_too_big)
  show "ihex_parser s steambuf sz \<noteq> Some (Inl (ByteCountTooBig, s'))"
  proof (cases "unat sz \<le> length steambuf")
    case True
    then show ?thesis by (simp add: ihex_parser_def loop_not_too_big)
  next
    case False
    then show ?thesis by (simp add: ihex_parser_def)
  qed
qed

section \<open>The null byte ends the input\<close>

lemma loop_nul_after:
  "ihex_loop s xs = Inr s' \<Longrightarrow> ihex_loop s (xs @ 0 # ys) = Inr s'"
  by (induction xs arbitrary: s) (auto split: sum.splits if_splits)

lemma take_split_at:
  assumes "i < n" and "n \<le> length xs"
  shows "take n xs = take i xs @ xs ! i # drop (Suc i) (take n xs)"
proof -
  have "take n xs = take i (take n xs) @ (take n xs) ! i # drop (Suc i) (take n xs)"
    using assms by (intro id_take_nth_drop) simp
  with assms show ?thesis by (simp add: min_def)
qed


text \<open>
  Claim C3. Let the buffer hold a null byte at index \<open>i\<close>, below \<open>size\<close>, and let the
  bytes before it be processed without a validation failure, leaving the state \<open>s'\<close>
  (that is, \<open>ihex_parser\<close> on the first \<open>i\<close> bytes returns true in state \<open>s'\<close>). Then
  \<open>ihex_parser\<close> on the whole buffer returns true in the same state \<open>s'\<close>, wherever in
  a record the null byte falls: nothing after the null byte is processed and nothing
  after it changes the state.
\<close>

theorem nul_terminates:
  assumes "unat sz \<le> length steambuf" and "i < sz" and "steambuf ! unat i = 0"
    and "ihex_parser s steambuf i = Some (Inr s')"
  shows "ihex_parser s steambuf sz = Some (Inr s')"
proof -
  from assms(2) have lt: "unat i < unat sz" by (simp add: word_less_nat_alt)
  with assms(1) have il: "unat i \<le> length steambuf" by simp
  from take_split_at [OF lt assms(1)] assms(3)
  have "take (unat sz) steambuf
        = take (unat i) steambuf @ 0 # drop (Suc (unat i)) (take (unat sz) steambuf)"
    by simp
  moreover from assms(4) il have "ihex_loop s (take (unat i) steambuf) = Inr s'"
    by (simp add: ihex_parser_def)
  ultimately have "ihex_loop s (take (unat sz) steambuf) = Inr s'"
    using loop_nul_after by metis
  with assms(1) show ?thesis by (simp add: ihex_parser_def)
qed

text \<open>
  The stream \<open>":0000010" NUL "1FF"\<close> from the initial state: true is returned, with
  the same result as for the eight bytes before the null byte, the decoder waiting for
  the second digit of the record type.
\<close>

theorem nul_terminates_witness:
  "ihex_parser initial_parser (bytes '':0000010'' @ [0] @ bytes ''1FF'') 12
     = ihex_parser initial_parser (bytes '':0000010'' @ [0] @ bytes ''1FF'') 8
   \<and> map_option returned_true
         (ihex_parser initial_parser (bytes '':0000010'' @ [0] @ bytes ''1FF'') 12) = Some True
   \<and> map_option (state \<circ> final_state)
         (ihex_parser initial_parser (bytes '':0000010'' @ [0] @ bytes ''1FF'') 12)
       = Some RECORD_TYPE_1_STATE"
proof -
  let ?buf = "bytes '':0000010'' @ [0] @ bytes ''1FF''"
  have a: "unat (12 :: 32 word) \<le> length ?buf" by (simp add: bytes_def)
  have b: "(8 :: 32 word) < 12" by simp
  have c: "?buf ! unat (8 :: 32 word) = 0" by (simp add: bytes_def)
  have d: "map_option returned_true (ihex_parser initial_parser ?buf 8) = Some True"
    by code_simp
  have e: "map_option (state \<circ> final_state) (ihex_parser initial_parser ?buf 8)
             = Some RECORD_TYPE_1_STATE"
    by code_simp
  from d obtain s' where f: "ihex_parser initial_parser ?buf 8 = Some (Inr s')"
    by (cases "ihex_parser initial_parser ?buf 8")
       (auto simp: returned_true_def split: sum.splits)
  from nul_terminates [OF a b c f] f d e show ?thesis by simp
qed

section \<open>Words\<close>

lemma unat_half: "unat (drop_bit 1 w) = unat w div 2" for w :: "16 word"
  by (simp add: unat_drop_bit_eq drop_bit_eq_div unat_div_distrib)

lemma unat_half_Suc [simp]: "unat (drop_bit (Suc 0) w) = unat w div 2" for w :: "16 word"
  using unat_half [of w] by simp

lemma unat_succ16: "unat w < 510 \<Longrightarrow> unat (w + 1) = Suc (unat w)" for w :: "16 word"
  using unat_add_lem [of w 1] by simp

lemma unat_ucast_16_8: "unat w < 256 \<Longrightarrow> unat (ucast w :: 8 word) = unat w" for w :: "16 word"
  by (simp add: unsigned_ucast_eq take_bit_eq_mod)

lemma unat_8_le: "unat (b :: 8 word) \<le> 255"
  using unsigned_less [of b, where 'a=nat] by simp

section \<open>The invariant of the payload count\<close>

lemma data_inv_initial: "data_inv initial_parser"
  by (simp add: data_inv_def initial_parser_def)

lemma data_inv_reset: "data_inv s \<Longrightarrow> data_inv (ihex_reset_state s)"
  by (simp add: data_inv_def ihex_reset_state_def)

lemma data_inv_set_callback: "data_inv s \<Longrightarrow> data_inv (ihex_set_callback_func fp s)"
  by (simp add: data_inv_def ihex_set_callback_func_def)

lemma data_inv_checksum_update [simp]: "data_inv (checksum_update hc s) = data_inv s"
  by (simp add: data_inv_def)

lemma finish_record_inv:
  "data_inv s \<Longrightarrow> state s = CHECKSUM_1_STATE \<Longrightarrow> data_inv (final_state (finish_record s))"
  by (simp add: finish_record_def final_state_def data_inv_def Let_def)

lemma data_step_index:
  assumes "data_inv s" and "state s = DATA_STATE"
  shows "unat (ucast (drop_bit 1 (data_size_in_nibble s)) :: 8 word) < unat (byte_count s)"
    and "unat (ucast (drop_bit 1 (data_size_in_nibble s)) :: 8 word) < IHEX_DATA_SIZE"
    and "unat (ucast (drop_bit 1 (data_size_in_nibble s)) :: 8 word) < length (data s)"
    and "unat (drop_bit 1 (data_size_in_nibble s)) < unat (byte_count s)"
proof -
  from assms have lt: "unat (data_size_in_nibble s) < 2 * unat (byte_count s)"
    and len: "length (data s) = IHEX_DATA_SIZE"
    by (simp_all add: data_inv_def)
  then have h: "unat (drop_bit 1 (data_size_in_nibble s)) < unat (byte_count s)"
    by (simp add: unat_half)
  with unat_8_le [of "byte_count s"]
  have "unat (drop_bit 1 (data_size_in_nibble s)) < 256" by simp
  then have e: "unat (ucast (drop_bit 1 (data_size_in_nibble s)) :: 8 word)
        = unat (drop_bit 1 (data_size_in_nibble s))"
    by (rule unat_ucast_16_8)
  show "unat (ucast (drop_bit 1 (data_size_in_nibble s)) :: 8 word) < unat (byte_count s)"
    using e h by simp
  then show "unat (ucast (drop_bit 1 (data_size_in_nibble s)) :: 8 word) < IHEX_DATA_SIZE"
    using unat_8_le [of "byte_count s"] by simp
  then show "unat (ucast (drop_bit 1 (data_size_in_nibble s)) :: 8 word) < length (data s)"
    using len by simp
  show "unat (drop_bit 1 (data_size_in_nibble s)) < unat (byte_count s)" by (rule h)
qed

lemma data_step_inv:
  assumes "data_inv s" and "state s = DATA_STATE" and "HexToDec c \<noteq> INVALID_HEX_CHAR"
  shows "data_inv (final_state (ihex_step s c))"
proof -
  from assms have lt: "unat (data_size_in_nibble s) < 2 * unat (byte_count s)"
    and len: "length (data s) = IHEX_DATA_SIZE"
    by (simp_all add: data_inv_def)
  with unat_8_le [of "byte_count s"] have "unat (data_size_in_nibble s) < 510" by simp
  then have suc: "unat (data_size_in_nibble s + 1) = Suc (unat (data_size_in_nibble s))"
    by (rule unat_succ16)
  show ?thesis
    using data_step_index(3) [OF assms(1,2)] lt len suc assms(2)
    by (simp add: step_DATA [OF assms(2,3)] Let_def final_state_def data_inv_def unat_half)
      arith
qed

lemma step_inv: "data_inv s \<Longrightarrow> data_inv (final_state (ihex_step s c))"
proof (cases "state s" rule: state_cases)
  case 1 then show "data_inv s \<Longrightarrow> ?thesis"
    by (simp add: step_START final_state_def data_inv_def)
next
  case 13 then show "data_inv s \<Longrightarrow> ?thesis" by (simp add: step_bad_state final_state_def)
next
  case 2 then show "data_inv s \<Longrightarrow> ?thesis"
    by (cases "HexToDec c = INVALID_HEX_CHAR")
       (simp_all add: step_invalid_hex step_BYTE_COUNT final_state_def data_inv_def)
next
  case 3 then show "data_inv s \<Longrightarrow> ?thesis"
    by (cases "HexToDec c = INVALID_HEX_CHAR")
       (simp_all add: step_invalid_hex step_BYTE_COUNT final_state_def data_inv_def)
next
  case 4 then show "data_inv s \<Longrightarrow> ?thesis"
    by (cases "HexToDec c = INVALID_HEX_CHAR")
       (simp_all add: step_invalid_hex step_ADDR final_state_def data_inv_def)
next
  case 5 then show "data_inv s \<Longrightarrow> ?thesis"
    by (cases "HexToDec c = INVALID_HEX_CHAR")
       (simp_all add: step_invalid_hex step_ADDR final_state_def data_inv_def)
next
  case 6 then show "data_inv s \<Longrightarrow> ?thesis"
    by (cases "HexToDec c = INVALID_HEX_CHAR")
       (simp_all add: step_invalid_hex step_ADDR final_state_def data_inv_def)
next
  case 7 then show "data_inv s \<Longrightarrow> ?thesis"
    by (cases "HexToDec c = INVALID_HEX_CHAR")
       (simp_all add: step_invalid_hex step_ADDR final_state_def data_inv_def)
next
  case 8 then show "data_inv s \<Longrightarrow> ?thesis"
    by (cases "HexToDec c = INVALID_HEX_CHAR")
       (simp_all add: step_invalid_hex step_RECORD_TYPE_0 final_state_def data_inv_def)
next
  case 9 then show "data_inv s \<Longrightarrow> ?thesis"
    by (cases "HexToDec c = INVALID_HEX_CHAR")
       (auto simp add: step_invalid_hex step_RECORD_TYPE_1 final_state_def data_inv_def
          unat_gt_0)
next
  case 10 then show "data_inv s \<Longrightarrow> ?thesis"
    by (cases "HexToDec c = INVALID_HEX_CHAR")
       (simp_all add: step_invalid_hex data_step_inv, simp add: final_state_def)
next
  case 11 then show "data_inv s \<Longrightarrow> ?thesis"
    by (cases "HexToDec c = INVALID_HEX_CHAR")
       (simp_all add: step_invalid_hex step_CHECKSUM_0 final_state_def data_inv_def)
next
  case 12 then show "data_inv s \<Longrightarrow> ?thesis"
    by (cases "HexToDec c = INVALID_HEX_CHAR")
       (simp_all add: step_invalid_hex step_CHECKSUM_1 finish_record_inv, simp add: final_state_def)
qed

lemma loop_inv: "data_inv s \<Longrightarrow> data_inv (final_state (ihex_loop s cs))"
proof (induction cs arbitrary: s)
  case Nil
  then show ?case by (simp add: final_state_def)
next
  case (Cons c cs)
  show ?case
  proof (cases "ihex_step s c")
    case (Inl e)
    with step_inv [OF Cons.prems, of c] Cons.prems show ?thesis
      by (simp add: final_state_def)
  next
    case (Inr s')
    with step_inv [OF Cons.prems, of c] have "data_inv s'" by (simp add: final_state_def)
    from Cons.IH [OF this] Inr Cons.prems show ?thesis by (simp add: final_state_def)
  qed
qed


lemma client_step_inv: "data_inv s \<Longrightarrow> client_step s a = Some s' \<Longrightarrow> data_inv s'"
  by (cases a)
     (auto simp: data_inv_reset data_inv_set_callback ihex_parser_def loop_inv
           split: if_splits)

lemma run_inv: "data_inv s \<Longrightarrow> run s as = Some s' \<Longrightarrow> data_inv s'"
  by (induction as arbitrary: s) (auto split: option.splits dest: client_step_inv)

lemma step_no_overflow: "data_inv s \<Longrightarrow> ihex_step s c \<noteq> Inl (DataIndexOutOfRange, s')"
proof (cases "state s" rule: state_cases)
  case 1 then show ?thesis by (simp add: step_START)
next
  case 13 then show ?thesis by (simp add: step_bad_state)
next
  case 2 then show ?thesis by (cases "HexToDec c = INVALID_HEX_CHAR") (simp_all add: step_invalid_hex step_BYTE_COUNT)
next
  case 3 then show ?thesis by (cases "HexToDec c = INVALID_HEX_CHAR") (simp_all add: step_invalid_hex step_BYTE_COUNT)
next
  case 4 then show ?thesis by (cases "HexToDec c = INVALID_HEX_CHAR") (simp_all add: step_invalid_hex step_ADDR)
next
  case 5 then show ?thesis by (cases "HexToDec c = INVALID_HEX_CHAR") (simp_all add: step_invalid_hex step_ADDR)
next
  case 6 then show ?thesis by (cases "HexToDec c = INVALID_HEX_CHAR") (simp_all add: step_invalid_hex step_ADDR)
next
  case 7 then show ?thesis by (cases "HexToDec c = INVALID_HEX_CHAR") (simp_all add: step_invalid_hex step_ADDR)
next
  case 8 then show ?thesis by (cases "HexToDec c = INVALID_HEX_CHAR") (simp_all add: step_invalid_hex step_RECORD_TYPE_0)
next
  case 9 then show ?thesis by (cases "HexToDec c = INVALID_HEX_CHAR") (simp_all add: step_invalid_hex step_RECORD_TYPE_1)
next
  case 10 then show "data_inv s \<Longrightarrow> ?thesis"
    using data_step_index(3) [of s]
    by (cases "HexToDec c = INVALID_HEX_CHAR") (simp_all add: step_invalid_hex step_DATA Let_def)
next
  case 11 then show ?thesis by (cases "HexToDec c = INVALID_HEX_CHAR") (simp_all add: step_invalid_hex step_CHECKSUM_0)
next
  case 12 then show ?thesis by (cases "HexToDec c = INVALID_HEX_CHAR") (simp_all add: step_invalid_hex step_CHECKSUM_1 finish_record_def Let_def)
qed

lemma loop_no_overflow: "data_inv s \<Longrightarrow> ihex_loop s cs \<noteq> Inl (DataIndexOutOfRange, s')"
proof (induction cs arbitrary: s)
  case Nil
  then show ?case by simp
next
  case (Cons c cs)
  show ?case
  proof (cases "ihex_step s c")
    case (Inl e)
    with step_no_overflow [OF Cons.prems, of c s'] show ?thesis by auto
  next
    case (Inr s1)
    with step_inv [OF Cons.prems, of c] have "data_inv s1" by (simp add: final_state_def)
    from Cons.IH [OF this] Inr show ?thesis by simp
  qed
qed

text \<open>
  Claim C8. In every state \<open>s\<close> that a session of the client reaches from the initial
  variables (any calls of reset, of the callback registration and of \<open>ihex_parser\<close>, on
  any buffers, also after a call that returned false), the payload buffer has its 255
  bytes and the byte count is at most 255; when the machine is in the data state, the
  nibble count halved is below the byte count, so the index \<open>b_index\<close> of the next write
  is below 255. Hence no iteration from \<open>s\<close> and no further call of \<open>ihex_parser\<close> from
  \<open>s\<close> writes outside the buffer. The states inside a call are covered too: the state
  before the byte at index \<open>i\<close> is the state after the call on the first \<open>i\<close> bytes.
\<close>

theorem data_index_in_bounds:
  assumes "run initial_parser cl = Some s"
  shows "length (data s) = IHEX_DATA_SIZE
     \<and> unat (byte_count s) \<le> IHEX_DATA_SIZE
     \<and> (state s = DATA_STATE \<longrightarrow>
          unat (drop_bit 1 (data_size_in_nibble s)) < unat (byte_count s)
          \<and> unat (ucast (drop_bit 1 (data_size_in_nibble s)) :: 8 word) < IHEX_DATA_SIZE)
     \<and> ihex_step s c \<noteq> Inl (DataIndexOutOfRange, s')
     \<and> ihex_parser s steambuf sz \<noteq> Some (Inl (DataIndexOutOfRange, s'))"
proof -
  from run_inv [OF data_inv_initial assms] have inv: "data_inv s" .
  then have "length (data s) = IHEX_DATA_SIZE" by (simp add: data_inv_def)
  moreover have "unat (byte_count s) \<le> IHEX_DATA_SIZE" by (rule unat_8_le)
  moreover have "state s = DATA_STATE \<longrightarrow>
          unat (drop_bit 1 (data_size_in_nibble s)) < unat (byte_count s)
          \<and> unat (ucast (drop_bit 1 (data_size_in_nibble s)) :: 8 word) < IHEX_DATA_SIZE"
    using data_step_index(2,4) [OF inv] by blast
  moreover have "ihex_step s c \<noteq> Inl (DataIndexOutOfRange, s')"
    by (rule step_no_overflow [OF inv])
  moreover have "ihex_parser s steambuf sz \<noteq> Some (Inl (DataIndexOutOfRange, s'))"
    by (simp add: ihex_parser_def loop_no_overflow [OF inv])
  ultimately show ?thesis by blast
qed

text \<open>
  A session that stops in the data state of a record declaring 255 bytes, two payload
  bytes written.
\<close>

theorem data_index_in_bounds_witness:
  "\<exists>s. run initial_parser [Feed (bytes '':FF000000'') 9, Feed (bytes ''1234'') 4] = Some s
       \<and> state s = DATA_STATE
       \<and> unat (drop_bit 1 (data_size_in_nibble s)) < unat (byte_count s)
       \<and> unat (ucast (drop_bit 1 (data_size_in_nibble s)) :: 8 word) < IHEX_DATA_SIZE
       \<and> length (data s) = IHEX_DATA_SIZE"
proof -
  have "map_option state (run initial_parser [Feed (bytes '':FF000000'') 9, Feed (bytes ''1234'') 4])
        = Some DATA_STATE"
    by code_simp
  then obtain s where r: "run initial_parser [Feed (bytes '':FF000000'') 9, Feed (bytes ''1234'') 4] = Some s"
    and st: "state s = DATA_STATE"
    by auto
  from data_index_in_bounds [OF r] st r show ?thesis by blast
qed

lemma step_no_mismatch: "data_inv s \<Longrightarrow> ihex_step s c \<noteq> Inl (SizeMismatch, s')"
proof (cases "state s" rule: state_cases)
  case 1 then show ?thesis by (simp add: step_START)
next
  case 13 then show ?thesis by (simp add: step_bad_state)
next
  case 2 then show ?thesis by (cases "HexToDec c = INVALID_HEX_CHAR") (simp_all add: step_invalid_hex step_BYTE_COUNT)
next
  case 3 then show ?thesis by (cases "HexToDec c = INVALID_HEX_CHAR") (simp_all add: step_invalid_hex step_BYTE_COUNT)
next
  case 4 then show ?thesis by (cases "HexToDec c = INVALID_HEX_CHAR") (simp_all add: step_invalid_hex step_ADDR)
next
  case 5 then show ?thesis by (cases "HexToDec c = INVALID_HEX_CHAR") (simp_all add: step_invalid_hex step_ADDR)
next
  case 6 then show ?thesis by (cases "HexToDec c = INVALID_HEX_CHAR") (simp_all add: step_invalid_hex step_ADDR)
next
  case 7 then show ?thesis by (cases "HexToDec c = INVALID_HEX_CHAR") (simp_all add: step_invalid_hex step_ADDR)
next
  case 8 then show ?thesis by (cases "HexToDec c = INVALID_HEX_CHAR") (simp_all add: step_invalid_hex step_RECORD_TYPE_0)
next
  case 9 then show ?thesis by (cases "HexToDec c = INVALID_HEX_CHAR") (simp_all add: step_invalid_hex step_RECORD_TYPE_1)
next
  case 10 then show ?thesis by (cases "HexToDec c = INVALID_HEX_CHAR") (simp_all add: step_invalid_hex step_DATA Let_def)
next
  case 11 then show ?thesis by (cases "HexToDec c = INVALID_HEX_CHAR") (simp_all add: step_invalid_hex step_CHECKSUM_0)
next
  case 12 then show "data_inv s \<Longrightarrow> ?thesis"
    by (cases "HexToDec c = INVALID_HEX_CHAR")
       (simp_all add: step_invalid_hex step_CHECKSUM_1 finish_record_def Let_def data_inv_def)
qed

lemma loop_no_mismatch: "data_inv s \<Longrightarrow> ihex_loop s cs \<noteq> Inl (SizeMismatch, s')"
proof (induction cs arbitrary: s)
  case Nil
  then show ?case by simp
next
  case (Cons c cs)
  show ?case
  proof (cases "ihex_step s c")
    case (Inl e)
    with step_no_mismatch [OF Cons.prems, of c s'] show ?thesis by auto
  next
    case (Inr s1)
    with step_inv [OF Cons.prems, of c] have "data_inv s1" by (simp add: final_state_def)
    from Cons.IH [OF this] Inr show ?thesis by simp
  qed
qed

text \<open>
  Claim C10. In every state that a session of the client reaches from the initial
  variables, a machine waiting for a checksum digit has written exactly twice the byte
  count of nibbles. Hence the comparison of line 261 never fails: no iteration from such
  a state and no call of \<open>ihex_parser\<close> from it returns false through that branch.
\<close>

theorem size_mismatch_dead:
  assumes "run initial_parser cl = Some s"
  shows "(state s = CHECKSUM_0_STATE \<or> state s = CHECKSUM_1_STATE \<longrightarrow>
            unat (data_size_in_nibble s) = 2 * unat (byte_count s))
     \<and> ihex_step s c \<noteq> Inl (SizeMismatch, s')
     \<and> ihex_parser s steambuf sz \<noteq> Some (Inl (SizeMismatch, s'))"
proof -
  from run_inv [OF data_inv_initial assms] have inv: "data_inv s" .
  then have "state s = CHECKSUM_0_STATE \<or> state s = CHECKSUM_1_STATE \<longrightarrow>
            unat (data_size_in_nibble s) = 2 * unat (byte_count s)"
    by (simp add: data_inv_def)
  moreover have "ihex_step s c \<noteq> Inl (SizeMismatch, s')"
    by (rule step_no_mismatch [OF inv])
  moreover have "ihex_parser s steambuf sz \<noteq> Some (Inl (SizeMismatch, s'))"
    by (simp add: ihex_parser_def loop_no_mismatch [OF inv])
  ultimately show ?thesis by blast
qed

text \<open>
  A session that stops before the last checksum digit of a record of three bytes.
\<close>

theorem size_mismatch_dead_witness:
  "\<exists>s. run initial_parser [Feed (bytes '':0300300002337A1'') 16] = Some s
       \<and> state s = CHECKSUM_1_STATE
       \<and> unat (data_size_in_nibble s) = 2 * unat (byte_count s)
       \<and> unat (byte_count s) = 3"
proof -
  have "map_option (\<lambda>s. (state s, unat (byte_count s)))
          (run initial_parser [Feed (bytes '':0300300002337A1'') 16])
        = Some (CHECKSUM_1_STATE, 3)"
    by code_simp
  then obtain s where r: "run initial_parser [Feed (bytes '':0300300002337A1'') 16] = Some s"
    and st: "state s = CHECKSUM_1_STATE" and bc: "unat (byte_count s) = 3"
    by auto
  from size_mismatch_dead [OF r] st bc r show ?thesis by blast
qed

section \<open>The hex digits\<close>

lemma HexToDec_digit: "48 \<le> h \<Longrightarrow> h \<le> 57 \<Longrightarrow> HexToDec h = h - 48 \<and> HexToDec h \<le> 9"
  by (simp add: HexToDec_def) unat_arith

lemma HexToDec_upper:
  "65 \<le> h \<Longrightarrow> h \<le> 70 \<Longrightarrow> HexToDec h = h - 55 \<and> 10 \<le> HexToDec h \<and> HexToDec h \<le> 15"
  by (simp add: HexToDec_def) unat_arith

lemma HexToDec_lower_a_to_f:
  "97 \<le> h \<Longrightarrow> h \<le> 102 \<Longrightarrow> HexToDec h = h - 87 \<and> 10 \<le> HexToDec h \<and> HexToDec h \<le> 15"
  by (simp add: HexToDec_def) unat_arith

lemma HexToDec_lower_g_to_z:
  "103 \<le> h \<Longrightarrow> h \<le> 122 \<Longrightarrow> HexToDec h = h - 87 \<and> 16 \<le> HexToDec h \<and> HexToDec h \<le> 35"
  by (simp add: HexToDec_def) unat_arith

lemma HexToDec_invalid_iff:
  "HexToDec h = INVALID_HEX_CHAR \<longleftrightarrow>
     \<not> (48 \<le> h \<and> h \<le> 57 \<or> 65 \<le> h \<and> h \<le> 70 \<or> 97 \<le> h \<and> h \<le> 122)"
  by (simp add: HexToDec_def) unat_arith

lemma HexToDec_nul [simp]: "HexToDec 0 = INVALID_HEX_CHAR"
  by (simp add: HexToDec_def)

lemma valid_hex_not_nul: "HexToDec c \<noteq> INVALID_HEX_CHAR \<Longrightarrow> c \<noteq> 0"
  by auto

lemma other_char_rejected:
  assumes "\<not> (48 \<le> c \<and> c \<le> 57 \<or> 65 \<le> c \<and> c \<le> 70 \<or> 97 \<le> c \<and> c \<le> 122)"
    and "BYTE_COUNT_0_STATE \<le> state s" and "state s \<le> CHECKSUM_1_STATE" and "c \<noteq> 0"
  shows "ihex_loop s (c # cs) = Inl (InvalidHexChar, s)"
  using assms by (simp add: step_invalid_hex HexToDec_invalid_iff)

text \<open>
  Claim C4. The digits \<open>'0'\<close> to \<open>'9'\<close> give 0 to 9, \<open>'A'\<close> to \<open>'F'\<close> and \<open>'a'\<close> to
  \<open>'f'\<close> give 10 to 15, and a character outside the three ranges of \<open>HexToDec\<close> is
  rejected in every state that expects a digit (the lemmas above). The lowercase range
  of \<open>HexToDec\<close> ends at \<open>'z'\<close>, though, where the uppercase range ends at \<open>'F'\<close>: the
  letters \<open>'g'\<close> to \<open>'z'\<close> give 16 to 35, not 10 to 15. The letter \<open>'g'\<close> gives 16,
  \<open>'z'\<close> gives 35, and the stream \<open>":0g"\<close> is accepted with a byte count of 16.
\<close>

theorem HexToDec_beyond_f:
  "HexToDec (of_char CHR ''g'') = 16
   \<and> HexToDec (of_char CHR ''z'') = 35
   \<and> \<not> (10 \<le> HexToDec (of_char CHR ''g'') \<and> HexToDec (of_char CHR ''g'') \<le> 15)
   \<and> returned_true (ihex_loop initial_parser (bytes '':0g''))
   \<and> byte_count (final_state (ihex_loop initial_parser (bytes '':0g''))) = 16"
proof -
  have g: "HexToDec (of_char CHR ''g'') = 16" and z: "HexToDec (of_char CHR ''z'') = 35"
    by (simp_all add: HexToDec_def)
  have "returned_true (ihex_loop initial_parser (bytes '':0g''))"
    and "byte_count (final_state (ihex_loop initial_parser (bytes '':0g''))) = 16"
    by code_simp+
  with g z show ?thesis by simp
qed

section \<open>Decoding again after a reset\<close>

lemma same_checksum_update:
  "same_session s t \<Longrightarrow> state s \<noteq> START_CODE_STATE \<Longrightarrow>
   same_session (checksum_update hc s) (checksum_update hc t)"
  by (simp add: same_session_def checksum_update_def)

lemma same_finish_record:
  "same_session s t \<Longrightarrow> state s = CHECKSUM_1_STATE \<Longrightarrow>
   same_outcome s t (finish_record s) (finish_record t)"
  by (auto simp add: same_session_def same_outcome_def finish_record_def Let_def final_state_def)

lemma same_outcome_upd:
  "same_outcome (checksum_update hc s) (checksum_update hc t) r q \<Longrightarrow> same_outcome s t r q"
  by (simp add: same_outcome_def)

lemma same_step:
  assumes "same_session s t"
  shows "same_outcome s t (ihex_step s c) (ihex_step t c)"
proof -
  from assms have st: "state t = state s" by (simp add: same_session_def)
  show ?thesis
  proof (cases "state s" rule: state_cases)
    case 1
    with assms st show ?thesis
      by (simp add: step_START same_outcome_def final_state_def same_session_def)
  next
    case 13
    with assms st show ?thesis
      by (simp add: step_bad_state same_outcome_def final_state_def)
  next
    case 2
    with assms st show ?thesis
      by (cases "HexToDec c = INVALID_HEX_CHAR")
         (simp_all add: step_invalid_hex step_BYTE_COUNT same_outcome_def final_state_def
            same_session_def checksum_update_def)
  next
    case 3
    with assms st show ?thesis
      by (cases "HexToDec c = INVALID_HEX_CHAR")
         (simp_all add: step_invalid_hex step_BYTE_COUNT same_outcome_def final_state_def
            same_session_def checksum_update_def)
  next
    case 4
    with assms st show ?thesis
      by (cases "HexToDec c = INVALID_HEX_CHAR")
         (simp_all add: step_invalid_hex step_ADDR same_outcome_def final_state_def
            same_session_def checksum_update_def)
  next
    case 5
    with assms st show ?thesis
      by (cases "HexToDec c = INVALID_HEX_CHAR")
         (simp_all add: step_invalid_hex step_ADDR same_outcome_def final_state_def
            same_session_def checksum_update_def)
  next
    case 6
    with assms st show ?thesis
      by (cases "HexToDec c = INVALID_HEX_CHAR")
         (simp_all add: step_invalid_hex step_ADDR same_outcome_def final_state_def
            same_session_def checksum_update_def)
  next
    case 7
    with assms st show ?thesis
      by (cases "HexToDec c = INVALID_HEX_CHAR")
         (simp_all add: step_invalid_hex step_ADDR same_outcome_def final_state_def
            same_session_def checksum_update_def)
  next
    case 8
    with assms st show ?thesis
      by (cases "HexToDec c = INVALID_HEX_CHAR")
         (simp_all add: step_invalid_hex step_RECORD_TYPE_0 same_outcome_def final_state_def
            same_session_def checksum_update_def)
  next
    case 9
    with assms st show ?thesis
      by (cases "HexToDec c = INVALID_HEX_CHAR")
         (simp_all add: step_invalid_hex step_RECORD_TYPE_1 same_outcome_def final_state_def
            same_session_def checksum_update_def)
  next
    case 10
    with assms st show ?thesis
      by (cases "HexToDec c = INVALID_HEX_CHAR")
         (simp_all add: step_invalid_hex step_DATA same_outcome_def final_state_def
            same_session_def checksum_update_def Let_def)
  next
    case 11
    with assms st show ?thesis
      by (cases "HexToDec c = INVALID_HEX_CHAR")
         (simp_all add: step_invalid_hex step_CHECKSUM_0 same_outcome_def final_state_def
            same_session_def checksum_update_def)
  next
    case 12
    show ?thesis
    proof (cases "HexToDec c = INVALID_HEX_CHAR")
      case True
      with 12 st show ?thesis
        by (simp add: step_invalid_hex same_outcome_def final_state_def)
    next
      case False
      from 12 assms have "same_session (checksum_update (HexToDec c) s) (checksum_update (HexToDec c) t)"
        by (intro same_checksum_update) simp_all
      from same_finish_record [OF this] 12 False st show ?thesis
        by (simp add: step_CHECKSUM_1 same_outcome_upd)
    qed
  qed
qed

lemma same_loop:
  "same_session s t \<Longrightarrow> same_outcome s t (ihex_loop s cs) (ihex_loop t cs)"
proof (induction cs arbitrary: s t)
  case Nil
  then show ?case by (simp add: same_outcome_def final_state_def)
next
  case (Cons c cs)
  note step = same_step [OF Cons.prems, of c]
  show ?case
  proof (cases "c = 0")
    case True
    with Cons.prems show ?thesis by (simp add: same_outcome_def final_state_def)
  next
    case False
    show ?thesis
    proof (cases "ihex_step s c")
      case (Inl e)
      with step False show ?thesis
        by (auto simp: same_outcome_def split: sum.splits prod.splits)
    next
      case (Inr s1)
      with step obtain t1 where t1: "ihex_step t c = Inr t1" and rel: "same_session s1 t1"
        by (auto simp: same_outcome_def split: sum.splits prod.splits)
      from step Inr t1 obtain tr1 where tr1: "calls s1 = calls s @ tr1" "calls t1 = calls t @ tr1"
        by (auto simp: same_outcome_def final_state_def)
      from Cons.IH [OF rel] obtain tr2 where
        tr2: "calls (final_state (ihex_loop s1 cs)) = calls s1 @ tr2"
             "calls (final_state (ihex_loop t1 cs)) = calls t1 @ tr2"
        and k: "(case ihex_loop s1 cs of
           Inl (e, s') \<Rightarrow> (case ihex_loop t1 cs of Inl (e', t') \<Rightarrow> e = e' | Inr t' \<Rightarrow> False)
         | Inr s' \<Rightarrow> (case ihex_loop t1 cs of Inl (e', t') \<Rightarrow> False | Inr t' \<Rightarrow> same_session s' t'))"
        by (auto simp: same_outcome_def)
      have "calls (final_state (ihex_loop s1 cs)) = calls s @ (tr1 @ tr2)"
        "calls (final_state (ihex_loop t1 cs)) = calls t @ (tr1 @ tr2)"
        using tr1 tr2 by simp_all
      moreover from False Inr have "ihex_loop s (c # cs) = ihex_loop s1 cs" by simp
      moreover from False t1 have "ihex_loop t (c # cs) = ihex_loop t1 cs" by simp
      ultimately show ?thesis
        unfolding same_outcome_def using k by (simp only:) blast
    qed
  qed
qed


lemma step_keeps_callback: "callback_fp (final_state (ihex_step s c)) = callback_fp s"
proof (cases "state s" rule: state_cases)
  case 1 then show ?thesis by (simp add: step_START final_state_def)
next
  case 13 then show ?thesis by (simp add: step_bad_state final_state_def)
next
  case 2 then show ?thesis by (cases "HexToDec c = INVALID_HEX_CHAR") (simp_all add: step_invalid_hex step_BYTE_COUNT final_state_def)
next
  case 3 then show ?thesis by (cases "HexToDec c = INVALID_HEX_CHAR") (simp_all add: step_invalid_hex step_BYTE_COUNT final_state_def)
next
  case 4 then show ?thesis by (cases "HexToDec c = INVALID_HEX_CHAR") (simp_all add: step_invalid_hex step_ADDR final_state_def)
next
  case 5 then show ?thesis by (cases "HexToDec c = INVALID_HEX_CHAR") (simp_all add: step_invalid_hex step_ADDR final_state_def)
next
  case 6 then show ?thesis by (cases "HexToDec c = INVALID_HEX_CHAR") (simp_all add: step_invalid_hex step_ADDR final_state_def)
next
  case 7 then show ?thesis by (cases "HexToDec c = INVALID_HEX_CHAR") (simp_all add: step_invalid_hex step_ADDR final_state_def)
next
  case 8 then show ?thesis by (cases "HexToDec c = INVALID_HEX_CHAR") (simp_all add: step_invalid_hex step_RECORD_TYPE_0 final_state_def)
next
  case 9 then show ?thesis by (cases "HexToDec c = INVALID_HEX_CHAR") (simp_all add: step_invalid_hex step_RECORD_TYPE_1 final_state_def)
next
  case 10 then show ?thesis by (cases "HexToDec c = INVALID_HEX_CHAR") (simp_all add: step_invalid_hex step_DATA Let_def final_state_def)
next
  case 11 then show ?thesis by (cases "HexToDec c = INVALID_HEX_CHAR") (simp_all add: step_invalid_hex step_CHECKSUM_0 final_state_def)
next
  case 12 then show ?thesis
    by (cases "HexToDec c = INVALID_HEX_CHAR")
       (simp_all add: step_invalid_hex step_CHECKSUM_1 finish_record_def Let_def final_state_def)
qed

lemma loop_keeps_callback: "callback_fp (final_state (ihex_loop s cs)) = callback_fp s"
proof (induction cs arbitrary: s)
  case Nil
  show ?case by (simp add: final_state_def)
next
  case (Cons c cs)
  show ?case
  proof (cases "ihex_step s c")
    case (Inl e)
    with step_keeps_callback [of s c] show ?thesis by (simp add: final_state_def)
  next
    case (Inr s1)
    with step_keeps_callback [of s c] have "callback_fp s1 = callback_fp s"
      by (simp add: final_state_def)
    with Cons.IH [of s1] Inr show ?thesis by (simp add: final_state_def)
  qed
qed

text \<open>
  Claim C6. Let a stream be fed after a reset (or from the initial variables, which a
  reset leaves as they are), with any registered callback or none; let reset be called
  and the same stream be fed again. Then the second pass returns what the first
  returned, and the invocations of the callback it adds to the log are those the first
  pass added: the same absolute addresses, buffers and lengths, in the same order. This
  holds for every stream, in particular for a valid stream of two records. The callback
  is a function of its arguments.
\<close>

theorem reset_replays:
  assumes "ihex_parser (ihex_reset_state s0) steambuf sz = Some r1"
    and "ihex_parser (ihex_reset_state (final_state r1)) steambuf sz = Some r2"
  shows "returned_true r2 = returned_true r1
     \<and> (\<exists>tr. calls (final_state r1) = calls s0 @ tr
             \<and> calls (final_state r2) = calls (final_state r1) @ tr)"
proof -
  let ?cs = "take (unat sz) steambuf"
  from assms have r1: "r1 = ihex_loop (ihex_reset_state s0) ?cs"
    and r2: "r2 = ihex_loop (ihex_reset_state (final_state r1)) ?cs"
    by (simp_all add: ihex_parser_def split: if_splits)
  have "callback_fp (final_state r1) = callback_fp s0"
    unfolding r1 loop_keeps_callback by (simp add: ihex_reset_state_def)
  then have "same_session (ihex_reset_state s0) (ihex_reset_state (final_state r1))"
    by (simp add: same_session_def ihex_reset_state_def)
  from same_loop [OF this, of ?cs] have so: "same_outcome (ihex_reset_state s0)
      (ihex_reset_state (final_state r1)) r1 r2"
    using r1 r2 by simp
  then have "returned_true r2 = returned_true r1"
    by (auto simp: same_outcome_def returned_true_def split: sum.splits)
  moreover from so have "\<exists>tr. calls (final_state r1) = calls s0 @ tr
             \<and> calls (final_state r2) = calls (final_state r1) @ tr"
    by (simp add: same_outcome_def ihex_reset_state_def)
  ultimately show ?thesis by blast
qed

text \<open>
  A valid stream of two records, an extended linear address record and a data record of
  two bytes: both passes return true and each invokes the callback once, with address
  \<open>0x10000020\<close>, the bytes \<open>55 AA\<close> and length 2.
\<close>

theorem reset_replays_witness:
  "\<exists>r1 r2.
     ihex_parser (ihex_reset_state (ihex_set_callback_func (Some (\<lambda>a d n. True)) initial_parser))
       (bytes '':020000041000EA'' @ [13, 10] @ bytes '':0200200055AADF'' @ [13, 10]) 34 = Some r1
     \<and> ihex_parser (ihex_reset_state (final_state r1))
       (bytes '':020000041000EA'' @ [13, 10] @ bytes '':0200200055AADF'' @ [13, 10]) 34 = Some r2
     \<and> returned_true r1 \<and> returned_true r2
     \<and> map (\<lambda>(a, d, n). (a, take n d, n)) (calls (final_state r1)) = [(0x10000020, [0x55, 0xAA], 2)]
     \<and> map (\<lambda>(a, d, n). (a, take n d, n)) (calls (final_state r2))
         = [(0x10000020, [0x55, 0xAA], 2), (0x10000020, [0x55, 0xAA], 2)]"
proof -
  let ?s = "ihex_reset_state (ihex_set_callback_func (Some (\<lambda>a d n. True)) initial_parser)"
  let ?buf = "bytes '':020000041000EA'' @ [13, 10] @ bytes '':0200200055AADF'' @ [13, 10]"
  have len: "unat (34 :: 32 word) \<le> length ?buf" by (simp add: bytes_def)
  then obtain r1 where r1: "ihex_parser ?s ?buf 34 = Some r1"
    by (simp add: ihex_parser_def)
  from len obtain r2 where r2: "ihex_parser (ihex_reset_state (final_state r1)) ?buf 34 = Some r2"
    by (simp add: ihex_parser_def)
  have c0: "calls (ihex_set_callback_func (Some (\<lambda>a d n. True)) initial_parser) = []"
    by (simp add: ihex_set_callback_func_def initial_parser_def)
  have e1: "map_option (\<lambda>r. (returned_true r, map (\<lambda>(a, d, n). (a, take n d, n)) (calls (final_state r))))
          (ihex_parser ?s ?buf 34) = Some (True, [(0x10000020, [0x55, 0xAA], 2)])"
    by code_simp
  with r1 have t1: "returned_true r1"
    and k1: "map (\<lambda>(a, d, n). (a, take n d, n)) (calls (final_state r1)) = [(0x10000020, [0x55, 0xAA], 2)]"
    by simp_all
  from reset_replays [OF r1 r2] c0 obtain tr where
    "returned_true r2 = returned_true r1" "calls (final_state r1) = tr"
    "calls (final_state r2) = calls (final_state r1) @ tr"
    by auto
  with t1 k1 r1 r2 show ?thesis by simp
qed

section \<open>Decoding one record\<close>

lemma be16_via_int:
  "(ucast (push_bit 8 (ucast d0 :: 32 word) OR ucast d1) :: 16 word)
     = push_bit 8 (ucast d0) OR ucast d1" for d0 d1 :: "8 word"
  by (rule bit_word_eqI) (auto simp: bit_simps)

lemma finish_record_addr:
  "if (record_type s = 2 \<or> record_type s = 4) \<and> returned_true (finish_record s)
   then address_hi (final_state (finish_record s))
          = push_bit 8 (ucast (data s ! 0)) OR ucast (data s ! 1)
        \<and> ex_segment_addr_mode (final_state (finish_record s)) = (record_type s = 2)
   else address_hi (final_state (finish_record s)) = address_hi s
        \<and> ex_segment_addr_mode (final_state (finish_record s)) = ex_segment_addr_mode s"
  by (simp add: finish_record_def Let_def returned_true_def final_state_def be16_via_int)

lemma step_keeps_addr:
  assumes "state s \<noteq> CHECKSUM_1_STATE"
  shows "address_hi (final_state (ihex_step s c)) = address_hi s
         \<and> ex_segment_addr_mode (final_state (ihex_step s c)) = ex_segment_addr_mode s"
proof (cases "state s" rule: state_cases)
  case 1 then show ?thesis by (simp add: step_START final_state_def)
next
  case 13 then show ?thesis by (simp add: step_bad_state final_state_def)
next
  case 2 then show ?thesis by (cases "HexToDec c = INVALID_HEX_CHAR") (simp_all add: step_invalid_hex step_BYTE_COUNT final_state_def)
next
  case 3 then show ?thesis by (cases "HexToDec c = INVALID_HEX_CHAR") (simp_all add: step_invalid_hex step_BYTE_COUNT final_state_def)
next
  case 4 then show ?thesis by (cases "HexToDec c = INVALID_HEX_CHAR") (simp_all add: step_invalid_hex step_ADDR final_state_def)
next
  case 5 then show ?thesis by (cases "HexToDec c = INVALID_HEX_CHAR") (simp_all add: step_invalid_hex step_ADDR final_state_def)
next
  case 6 then show ?thesis by (cases "HexToDec c = INVALID_HEX_CHAR") (simp_all add: step_invalid_hex step_ADDR final_state_def)
next
  case 7 then show ?thesis by (cases "HexToDec c = INVALID_HEX_CHAR") (simp_all add: step_invalid_hex step_ADDR final_state_def)
next
  case 8 then show ?thesis by (cases "HexToDec c = INVALID_HEX_CHAR") (simp_all add: step_invalid_hex step_RECORD_TYPE_0 final_state_def)
next
  case 9 then show ?thesis by (cases "HexToDec c = INVALID_HEX_CHAR") (simp_all add: step_invalid_hex step_RECORD_TYPE_1 final_state_def)
next
  case 10 then show ?thesis by (cases "HexToDec c = INVALID_HEX_CHAR") (simp_all add: step_invalid_hex step_DATA Let_def final_state_def)
next
  case 11 then show ?thesis by (cases "HexToDec c = INVALID_HEX_CHAR") (simp_all add: step_invalid_hex step_CHECKSUM_0 final_state_def)
next
  case 12 with assms show ?thesis by simp
qed

lemma ucast_down_add:
  "(ucast ((ucast a :: 32 word) + b) :: 8 word) = a + ucast b"
proof -
  have "unat (ucast ((ucast a :: 32 word) + b) :: 8 word) = ((unat a + unat b) mod 4294967296) mod 256"
    by (simp add: unsigned_ucast_eq unat_word_ariths take_bit_eq_mod mod_add_left_eq)
  also have "\<dots> = (unat a + unat b) mod 256"
    by (rule mod_mod_cancel) simp
  also have "\<dots> = (unat a + unat b mod 256) mod 256"
    by (simp add: mod_add_right_eq)
  also have "\<dots> = unat (a + ucast b :: 8 word)"
    by (simp add: unsigned_ucast_eq unat_word_ariths take_bit_eq_mod)
  finally show ?thesis by (simp add: word_unat_eq_iff)
qed

lemma up_down [simp]: "(ucast (ucast (h :: 8 word) :: 32 word) :: 8 word) = h"
  by (rule bit_word_eqI) (auto simp: bit_simps)

lemma checksum_add:
  "(ucast ((ucast c :: 32 word) + (push_bit 4 (ucast t :: 32 word) OR ucast hc)) :: 8 word)
     = c + cs_byte t hc"
  by (simp add: cs_byte_def ucast_down_add)

lemma nibble_into_zero:
  "(ucast (push_bit 4 (ucast (0 :: 8 word) :: 32 word) OR ucast hc) :: 8 word) = hc"
  by simp

lemma nibble_into_byte:
  "(ucast (push_bit 4 (ucast h1 :: 32 word) OR ucast h2) :: 8 word) = cs_byte h1 h2"
  by (simp add: cs_byte_def)

lemma cs_byte_zero [simp]: "cs_byte 0 h = h"
  by (simp add: cs_byte_def)

lemma checksum_update_first:
  "\<not> calc_cs_toogle s \<Longrightarrow>
   checksum_update hc s = s\<lparr>temp_cs := hc, calc_cs_toogle := True\<rparr>"
  by (simp add: checksum_update_def)

lemma checksum_update_second:
  "calc_cs_toogle s \<Longrightarrow>
   checksum_update hc s
     = s\<lparr>calc_cs := calc_cs s + cs_byte (temp_cs s) hc, calc_cs_toogle := False\<rparr>"
  by (simp add: checksum_update_def checksum_add)

lemma loop_cons_valid:
  "HexToDec c \<noteq> INVALID_HEX_CHAR \<Longrightarrow>
   ihex_loop s (c # cs) = (case ihex_step s c of Inl e \<Rightarrow> Inl e | Inr s' \<Rightarrow> ihex_loop s' cs)"
  by (auto simp: valid_hex_not_nul)

lemma loop_append:
  "\<forall>c\<in>set xs. c \<noteq> 0 \<Longrightarrow>
   ihex_loop s (xs @ ys) = (case ihex_loop s xs of Inl e \<Rightarrow> Inl e | Inr s' \<Rightarrow> ihex_loop s' ys)"
  by (induction xs arbitrary: s) (auto split: sum.splits)

lemma run_start:
  assumes "state s = START_CODE_STATE"
  shows "ihex_loop s (58 # cs) =
     ihex_loop (s\<lparr>calc_cs := 0, calc_cs_toogle := False, byte_count := 0, record_type := 0,
               address_lo := 0, data := replicate IHEX_DATA_SIZE 0,
               data_size_in_nibble := 0, state := BYTE_COUNT_0_STATE\<rparr>) cs"
  using assms by (simp add: step_START)

lemma run_byte_count:
  assumes "state s = BYTE_COUNT_0_STATE" and "\<not> calc_cs_toogle s" and "byte_count s = 0"
    and "HexToDec b1 \<noteq> INVALID_HEX_CHAR" and "HexToDec b2 \<noteq> INVALID_HEX_CHAR"
  shows "ihex_loop s (b1 # b2 # cs) =
     ihex_loop (s\<lparr>temp_cs := HexToDec b1,
                 calc_cs := calc_cs s + cs_byte (HexToDec b1) (HexToDec b2),
                 calc_cs_toogle := False,
                 byte_count := cs_byte (HexToDec b1) (HexToDec b2),
                 state := ADDR_0_STATE\<rparr>) cs"
  using assms
  by (simp add: loop_cons_valid step_BYTE_COUNT checksum_update_first checksum_update_second
        nibble_into_zero nibble_into_byte del: ihex_loop.simps(2))

lemma run_address:
  assumes "state s = ADDR_0_STATE" and "\<not> calc_cs_toogle s" and "address_lo s = 0"
    and "HexToDec a1 \<noteq> INVALID_HEX_CHAR" and "HexToDec a2 \<noteq> INVALID_HEX_CHAR"
    and "HexToDec a3 \<noteq> INVALID_HEX_CHAR" and "HexToDec a4 \<noteq> INVALID_HEX_CHAR"
  shows "ihex_loop s (a1 # a2 # a3 # a4 # cs) =
     ihex_loop (s\<lparr>temp_cs := HexToDec a3,
                 calc_cs := calc_cs s + cs_byte (HexToDec a1) (HexToDec a2)
                            + cs_byte (HexToDec a3) (HexToDec a4),
                 calc_cs_toogle := False,
                 address_lo := address_field a1 a2 a3 a4,
                 state := RECORD_TYPE_0_STATE\<rparr>) cs"
  using assms
  by (simp add: loop_cons_valid step_ADDR checksum_update_first checksum_update_second
        address_field_def addr_shift_def del: ihex_loop.simps(2))

lemma run_record_type:
  assumes "state s = RECORD_TYPE_0_STATE" and "\<not> calc_cs_toogle s"
    and "HexToDec t1 = 0" and "HexToDec t2 \<le> 5 \<or> HexToDec t2 = 0xE"
  shows "ihex_loop s (t1 # t2 # cs) =
     ihex_loop (s\<lparr>temp_cs := 0,
                 calc_cs := calc_cs s + HexToDec t2,
                 calc_cs_toogle := False,
                 record_type := HexToDec t2,
                 state := (if byte_count s = 0 then CHECKSUM_0_STATE else DATA_STATE)\<rparr>) cs"
proof -
  have t2v: "HexToDec t2 \<noteq> INVALID_HEX_CHAR" using assms(4) by auto
  have t1v: "HexToDec t1 \<noteq> INVALID_HEX_CHAR" using assms(3) by auto
  show ?thesis
    using assms t2v
    by (simp add: loop_cons_valid t1v step_RECORD_TYPE_0 step_RECORD_TYPE_1
          checksum_update_first checksum_update_second del: ihex_loop.simps(2))
qed


lemma b_index_val:
  "unat w < 512 \<Longrightarrow> unat (ucast (drop_bit 1 w) :: 8 word) = unat w div 2" for w :: "16 word"
  by (simp add: unat_ucast_16_8 unat_half)

lemma b_index_val_Suc [simp]:
  "unat w < 512 \<Longrightarrow> unat (ucast (drop_bit (Suc 0) w) :: 8 word) = unat w div 2"
  for w :: "16 word"
  using b_index_val [of w] by simp

lemma update_first_zero:
  "length done < 255 \<Longrightarrow>
   (done @ replicate (255 - length done) (0 :: 8 word))[length done := x]
     = done @ x # replicate (254 - length done) 0"
  by (cases "255 - length done") (simp_all add: list_update_append)

lemma update_written:
  "(done @ y # zs)[length done := x] = done @ x # zs"
  by (simp add: list_update_append)

lemma run_data_nibble_1:
  assumes "state s = DATA_STATE" and "\<not> calc_cs_toogle s"
    and "unat (data_size_in_nibble s) = 2 * length done"
    and "data s = done @ replicate (255 - length done) 0"
    and "length done < unat (byte_count s)"
    and "HexToDec a \<noteq> INVALID_HEX_CHAR"
  shows "ihex_step s a =
     Inr (s\<lparr>temp_cs := HexToDec a, calc_cs_toogle := True,
            data := done @ HexToDec a # replicate (254 - length done) 0,
            data_size_in_nibble := data_size_in_nibble s + 1\<rparr>)"
proof -
  from assms(5) unat_8_le [of "byte_count s"] have k: "length done < 255" by simp
  with assms(3) have lt: "unat (data_size_in_nibble s) < 510" by simp
  then have suc: "unat (data_size_in_nibble s + 1) = Suc (2 * length done)"
    using unat_succ16 [of "data_size_in_nibble s"] assms(3) by simp
  have idx: "unat (ucast (drop_bit 1 (data_size_in_nibble s)) :: 8 word) = length done"
    using b_index_val [of "data_size_in_nibble s"] lt assms(3) by simp
  have len: "length (data s) = 255" using assms(4) k by simp
  have cell: "data s ! length done = 0" using assms(4) k by (simp add: nth_append)
  have upd: "(data s)[length done := HexToDec a] = done @ HexToDec a # replicate (254 - length done) 0"
    using assms(4) update_first_zero [OF k] by simp
  show ?thesis
    unfolding step_DATA [OF assms(1,6)] Let_def idx
    using len k cell upd suc assms(2,5)
    by (simp add: unat_half checksum_update_first nibble_into_zero)
qed

lemma run_data_nibble_2:
  assumes "state s = DATA_STATE" and "calc_cs_toogle s"
    and "unat (data_size_in_nibble s) = Suc (2 * length done)"
    and "data s = done @ temp_cs s # replicate (254 - length done) 0"
    and "length done < unat (byte_count s)"
    and "HexToDec b \<noteq> INVALID_HEX_CHAR"
  shows "ihex_step s b =
     Inr (s\<lparr>calc_cs := calc_cs s + cs_byte (temp_cs s) (HexToDec b),
            calc_cs_toogle := False,
            data := (done @ [cs_byte (temp_cs s) (HexToDec b)])
                    @ replicate (255 - length (done @ [cs_byte (temp_cs s) (HexToDec b)])) 0,
            data_size_in_nibble := data_size_in_nibble s + 1,
            state := (if Suc (length done) = unat (byte_count s)
                      then CHECKSUM_0_STATE else DATA_STATE)\<rparr>)"
proof -
  from assms(5) unat_8_le [of "byte_count s"] have k: "length done < 255" by simp
  with assms(3) have lt: "unat (data_size_in_nibble s) < 510" by simp
  then have suc: "unat (data_size_in_nibble s + 1) = 2 * Suc (length done)"
    using unat_succ16 [of "data_size_in_nibble s"] assms(3) by simp
  have idx: "unat (ucast (drop_bit 1 (data_size_in_nibble s)) :: 8 word) = length done"
    using b_index_val [of "data_size_in_nibble s"] lt assms(3) by simp
  have len: "length (data s) = 255" using assms(4) k by simp
  have cell: "data s ! length done = temp_cs s" using assms(4) by (simp add: nth_append)
  have upd: "(data s)[length done := x] = done @ x # replicate (254 - length done) 0" for x
    using assms(4) update_written [of "done"] by simp
  have half: "unat (drop_bit 1 (data_size_in_nibble s + 1)) = Suc (length done)"
    using suc by (simp add: unat_half)
  show ?thesis
    unfolding step_DATA [OF assms(1,6)] Let_def idx half
    using len k cell upd assms(2,5)
    by (auto simp add: checksum_update_second nibble_into_byte assms(1)
          intro!: parser.equality)
qed


lemma run_data_pair:
  assumes "state s = DATA_STATE" and "\<not> calc_cs_toogle s"
    and "unat (data_size_in_nibble s) = 2 * length done"
    and "data s = done @ replicate (255 - length done) 0"
    and "length done < unat (byte_count s)"
    and "HexToDec a \<noteq> INVALID_HEX_CHAR" and "HexToDec b \<noteq> INVALID_HEX_CHAR"
  shows "ihex_loop s (a # b # cs) =
     ihex_loop (s\<lparr>temp_cs := HexToDec a,
                 calc_cs := calc_cs s + cs_byte (HexToDec a) (HexToDec b),
                 calc_cs_toogle := False,
                 data := (done @ [cs_byte (HexToDec a) (HexToDec b)])
                    @ replicate (255 - length (done @ [cs_byte (HexToDec a) (HexToDec b)])) 0,
                 data_size_in_nibble := data_size_in_nibble s + 1 + 1,
                 state := (if Suc (length done) = unat (byte_count s)
                           then CHECKSUM_0_STATE else DATA_STATE)\<rparr>) cs"
proof -
  let ?s1 = "s\<lparr>temp_cs := HexToDec a, calc_cs_toogle := True,
            data := done @ HexToDec a # replicate (254 - length done) 0,
            data_size_in_nibble := data_size_in_nibble s + 1\<rparr>"
  from assms(5) unat_8_le [of "byte_count s"] have k: "length done < 255" by simp
  with assms(3) have "unat (data_size_in_nibble s) < 510" by simp
  then have suc: "unat (data_size_in_nibble s + 1) = Suc (2 * length done)"
    using unat_succ16 [of "data_size_in_nibble s"] assms(3) by simp
  have one: "ihex_step s a = Inr ?s1"
    by (rule run_data_nibble_1 [OF assms(1-6)])
  have two: "ihex_step ?s1 b =
     Inr (?s1\<lparr>calc_cs := calc_cs ?s1 + cs_byte (temp_cs ?s1) (HexToDec b),
            calc_cs_toogle := False,
            data := (done @ [cs_byte (temp_cs ?s1) (HexToDec b)])
                    @ replicate (255 - length (done @ [cs_byte (temp_cs ?s1) (HexToDec b)])) 0,
            data_size_in_nibble := data_size_in_nibble ?s1 + 1,
            state := (if Suc (length done) = unat (byte_count ?s1)
                      then CHECKSUM_0_STATE else DATA_STATE)\<rparr>)"
    using assms(1,5,7) suc by (intro run_data_nibble_2) simp_all
  show ?thesis
    by (simp add: loop_cons_valid assms(6,7) one two del: ihex_loop.simps(2))
qed

lemma run_data:
  assumes "state s = DATA_STATE" and "\<not> calc_cs_toogle s"
    and "unat (data_size_in_nibble s) = 2 * length done"
    and "data s = done @ replicate (255 - length done) 0"
    and "length done < unat (byte_count s)"
    and "length ps = 2 * (unat (byte_count s) - length done)"
    and "\<forall>c\<in>set ps. HexToDec c \<noteq> INVALID_HEX_CHAR"
  shows "\<exists>t. ihex_loop s (ps @ cs) =
     ihex_loop (s\<lparr>temp_cs := t,
                 calc_cs := calc_cs s + sum_list (decode_pairs ps),
                 calc_cs_toogle := False,
                 data := done @ decode_pairs ps @ replicate (255 - unat (byte_count s)) 0,
                 data_size_in_nibble := data_size_in_nibble s + of_nat (length ps),
                 state := CHECKSUM_0_STATE\<rparr>) cs"
  using assms
proof (induction ps arbitrary: s "done" rule: decode_pairs.induct)
  case (1 a b rest)
  let ?byte = "cs_byte (HexToDec a) (HexToDec b)"
  let ?s2 = "s\<lparr>temp_cs := HexToDec a,
                 calc_cs := calc_cs s + ?byte,
                 calc_cs_toogle := False,
                 data := (done @ [?byte]) @ replicate (255 - length (done @ [?byte])) 0,
                 data_size_in_nibble := data_size_in_nibble s + 1 + 1,
                 state := (if Suc (length done) = unat (byte_count s)
                           then CHECKSUM_0_STATE else DATA_STATE)\<rparr>"
  from "1.prems" have va: "HexToDec a \<noteq> INVALID_HEX_CHAR" and vb: "HexToDec b \<noteq> INVALID_HEX_CHAR"
    by simp_all
  have pair: "ihex_loop s ((a # b # rest) @ cs) = ihex_loop ?s2 (rest @ cs)"
    using run_data_pair [OF "1.prems"(1-5) va vb, of "rest @ cs"] by simp
  from "1.prems"(5) unat_8_le [of "byte_count s"] have k: "length done < 255" by simp
  show ?case
  proof (cases "Suc (length done) = unat (byte_count s)")
    case True
    then have d: "unat (byte_count s) - length done = 1" by arith
    have "length (a # b # rest) = 2" using "1.prems"(6) unfolding d by simp
    then have "rest = []" by simp
    with True pair show ?thesis
      by (intro exI [of _ "HexToDec a"]) (simp, rule arg_cong [of _ _ "\<lambda>x. ihex_loop x cs"],
          rule parser.equality, simp_all)
  next
    case False
    with "1.prems"(5) have lt: "length (done @ [?byte]) < unat (byte_count ?s2)" by simp
    have dsn: "unat (data_size_in_nibble ?s2) = 2 * length (done @ [?byte])"
      using "1.prems"(3) k unat_succ16 [of "data_size_in_nibble s"]
        unat_succ16 [of "data_size_in_nibble s + 1"] by simp
    have len: "length rest = 2 * (unat (byte_count ?s2) - length (done @ [?byte]))"
      using "1.prems"(6) by simp
    have val: "\<forall>c\<in>set rest. HexToDec c \<noteq> INVALID_HEX_CHAR"
      using "1.prems"(7) by simp
    from False have st: "state ?s2 = DATA_STATE" by simp
    have tg: "\<not> calc_cs_toogle ?s2" by simp
    have dt: "data ?s2 = (done @ [?byte]) @ replicate (255 - length (done @ [?byte])) 0" by simp
    from "1.IH" [OF st tg dsn dt lt len val] obtain t where
      "ihex_loop ?s2 (rest @ cs) =
         ihex_loop (?s2\<lparr>temp_cs := t,
                 calc_cs := calc_cs ?s2 + sum_list (decode_pairs rest),
                 calc_cs_toogle := False,
                 data := (done @ [?byte]) @ decode_pairs rest @ replicate (255 - unat (byte_count ?s2)) 0,
                 data_size_in_nibble := data_size_in_nibble ?s2 + of_nat (length rest),
                 state := CHECKSUM_0_STATE\<rparr>) cs"
      by blast
    with pair show ?thesis
      by (intro exI [of _ t]) (simp add: ac_simps)
  qed
qed simp_all


lemma run_checksum:
  assumes "state s = CHECKSUM_0_STATE" and "\<not> calc_cs_toogle s"
    and "HexToDec k1 \<noteq> INVALID_HEX_CHAR" and "HexToDec k2 \<noteq> INVALID_HEX_CHAR"
  shows "ihex_loop s (k1 # k2 # cs) =
     (case finish_record (s\<lparr>temp_cs := HexToDec k1,
                             calc_cs := calc_cs s + cs_byte (HexToDec k1) (HexToDec k2),
                             calc_cs_toogle := False,
                             state := CHECKSUM_1_STATE\<rparr>) of
        Inl e \<Rightarrow> Inl e
      | Inr s' \<Rightarrow> ihex_loop s' cs)"
proof -
  let ?s1 = "(checksum_update (HexToDec k1) s)\<lparr>state := CHECKSUM_1_STATE\<rparr>"
  have one: "ihex_step s k1 = Inr ?s1"
    using assms by (simp add: step_CHECKSUM_0)
  have two: "ihex_step ?s1 k2 = finish_record (checksum_update (HexToDec k2) ?s1)"
    using assms by (simp add: step_CHECKSUM_1)
  have "checksum_update (HexToDec k2) ?s1
        = s\<lparr>temp_cs := HexToDec k1,
            calc_cs := calc_cs s + cs_byte (HexToDec k1) (HexToDec k2),
            calc_cs_toogle := False,
            state := CHECKSUM_1_STATE\<rparr>"
    using assms(2)
    by (intro parser.equality) (simp_all add: checksum_update_first checksum_update_second)
  with one two show ?thesis
    by (simp add: loop_cons_valid assms(3,4) del: ihex_loop.simps(2))
qed

lemma decode_pairs_append:
  "even (length xs) \<Longrightarrow> decode_pairs (xs @ ys) = decode_pairs xs @ decode_pairs ys"
  by (induction xs rule: decode_pairs.induct) simp_all

lemma record_run_chars:
  assumes st: "state s = START_CODE_STATE"
    and v: "\<forall>c\<in>set ([b1, b2, a1, a2, a3, a4, t1, t2] @ ps @ [k1, k2]).
              HexToDec c \<noteq> INVALID_HEX_CHAR"
    and t1: "HexToDec t1 = 0" and t2: "HexToDec t2 \<le> 5 \<or> HexToDec t2 = 0xE"
    and len: "length ps = 2 * unat (cs_byte (HexToDec b1) (HexToDec b2))"
  shows "ihex_loop s (58 # ([b1, b2, a1, a2, a3, a4, t1, t2] @ ps @ [k1, k2]) @ cs) =
     (case finish_record
             (s\<lparr>state := CHECKSUM_1_STATE,
                byte_count := cs_byte (HexToDec b1) (HexToDec b2),
                address_lo := address_field a1 a2 a3 a4,
                record_type := HexToDec t2,
                data := decode_pairs ps
                        @ replicate (IHEX_DATA_SIZE - unat (cs_byte (HexToDec b1) (HexToDec b2))) 0,
                data_size_in_nibble := of_nat (length ps),
                temp_cs := HexToDec k1,
                calc_cs := sum_list (decode_pairs ([b1, b2, a1, a2, a3, a4, t1, t2] @ ps @ [k1, k2])),
                calc_cs_toogle := False\<rparr>) of
        Inl e \<Rightarrow> Inl e
      | Inr s' \<Rightarrow> ihex_loop s' cs)"
proof -
  let ?bc = "cs_byte (HexToDec b1) (HexToDec b2)"
  let ?s1 = "s\<lparr>calc_cs := 0, calc_cs_toogle := False, byte_count := 0, record_type := 0,
               address_lo := 0, data := replicate IHEX_DATA_SIZE 0,
               data_size_in_nibble := 0, state := BYTE_COUNT_0_STATE\<rparr>"
  let ?s2 = "?s1\<lparr>temp_cs := HexToDec b1,
                 calc_cs := ?bc,
                 calc_cs_toogle := False, byte_count := ?bc, state := ADDR_0_STATE\<rparr>"
  let ?s3 = "?s2\<lparr>temp_cs := HexToDec a3,
                 calc_cs := ?bc + cs_byte (HexToDec a1) (HexToDec a2)
                            + cs_byte (HexToDec a3) (HexToDec a4),
                 calc_cs_toogle := False,
                 address_lo := address_field a1 a2 a3 a4,
                 state := RECORD_TYPE_0_STATE\<rparr>"
  let ?s4 = "?s3\<lparr>temp_cs := 0,
                 calc_cs := ?bc + cs_byte (HexToDec a1) (HexToDec a2)
                            + cs_byte (HexToDec a3) (HexToDec a4) + HexToDec t2,
                 calc_cs_toogle := False,
                 record_type := HexToDec t2,
                 state := (if ?bc = 0 then CHECKSUM_0_STATE else DATA_STATE)\<rparr>"
  let ?tail = "ps @ k1 # k2 # cs"
  have e1: "ihex_loop s (58 # ([b1, b2, a1, a2, a3, a4, t1, t2] @ ps @ [k1, k2]) @ cs)
            = ihex_loop ?s1 ([b1, b2, a1, a2, a3, a4, t1, t2] @ ?tail)"
    using run_start [OF st] by simp
  have e2: "ihex_loop ?s1 ([b1, b2, a1, a2, a3, a4, t1, t2] @ ?tail)
            = ihex_loop ?s2 ([a1, a2, a3, a4, t1, t2] @ ?tail)"
    using v run_byte_count [of ?s1 b1 b2 "[a1, a2, a3, a4, t1, t2] @ ?tail"] by simp
  have e3: "ihex_loop ?s2 ([a1, a2, a3, a4, t1, t2] @ ?tail) = ihex_loop ?s3 ([t1, t2] @ ?tail)"
    using v run_address [of ?s2 a1 a2 a3 a4 "[t1, t2] @ ?tail"] by simp
  have e4: "ihex_loop ?s3 ([t1, t2] @ ?tail) = ihex_loop ?s4 ?tail"
    using t1 t2 run_record_type [of ?s3 t1 t2 ?tail] by simp
  have kv: "HexToDec k1 \<noteq> INVALID_HEX_CHAR" "HexToDec k2 \<noteq> INVALID_HEX_CHAR"
    using v by simp_all
  have sum: "sum_list (decode_pairs ([b1, b2, a1, a2, a3, a4, t1, t2] @ ps @ [k1, k2]))
     = ?bc + cs_byte (HexToDec a1) (HexToDec a2) + cs_byte (HexToDec a3) (HexToDec a4)
       + HexToDec t2 + sum_list (decode_pairs ps) + cs_byte (HexToDec k1) (HexToDec k2)"
    using len t1 by (simp add: decode_pairs_append)
  let ?target = "s\<lparr>state := CHECKSUM_1_STATE,
                byte_count := cs_byte (HexToDec b1) (HexToDec b2),
                address_lo := address_field a1 a2 a3 a4,
                record_type := HexToDec t2,
                data := decode_pairs ps
                        @ replicate (IHEX_DATA_SIZE - unat (cs_byte (HexToDec b1) (HexToDec b2))) 0,
                data_size_in_nibble := of_nat (length ps),
                temp_cs := HexToDec k1,
                calc_cs := sum_list (decode_pairs ([b1, b2, a1, a2, a3, a4, t1, t2] @ ps @ [k1, k2])),
                calc_cs_toogle := False\<rparr>"
  show ?thesis
  proof (cases "?bc = 0")
    case True
    with len have ps: "ps = []" by simp
    let ?s6 = "?s4\<lparr>temp_cs := HexToDec k1,
                             calc_cs := ?bc + cs_byte (HexToDec a1) (HexToDec a2)
                                + cs_byte (HexToDec a3) (HexToDec a4) + HexToDec t2
                                + cs_byte (HexToDec k1) (HexToDec k2),
                             calc_cs_toogle := False,
                             state := CHECKSUM_1_STATE\<rparr>"
    have "ihex_loop ?s4 (k1 # k2 # cs) =
       (case finish_record ?s6 of Inl e \<Rightarrow> Inl e | Inr s' \<Rightarrow> ihex_loop s' cs)"
      using True kv run_checksum [of ?s4 k1 k2 cs] by simp
    moreover have "?s6 = ?target"
      unfolding sum using True ps by (intro parser.equality) simp_all
    ultimately show ?thesis
      unfolding e1 e2 e3 e4 using ps by simp
  next
    case False
    then have pos: "0 < unat ?bc" by (simp add: unat_gt_0)
    have pv: "\<forall>c\<in>set ps. HexToDec c \<noteq> INVALID_HEX_CHAR" using v by simp
    from False have "state ?s4 = DATA_STATE" by simp
    from run_data [of ?s4 "[]" ps "k1 # k2 # cs", OF this] pos len pv obtain t where
      e5: "ihex_loop ?s4 ?tail =
        ihex_loop (?s4\<lparr>temp_cs := t,
                 calc_cs := ?bc + cs_byte (HexToDec a1) (HexToDec a2)
                                + cs_byte (HexToDec a3) (HexToDec a4) + HexToDec t2
                                + sum_list (decode_pairs ps),
                 calc_cs_toogle := False,
                 data := decode_pairs ps @ replicate (255 - unat ?bc) 0,
                 data_size_in_nibble := of_nat (length ps),
                 state := CHECKSUM_0_STATE\<rparr>) (k1 # k2 # cs)" (is "_ = ihex_loop ?s5 _")
      by auto
    let ?s6 = "?s5\<lparr>temp_cs := HexToDec k1,
                             calc_cs := ?bc + cs_byte (HexToDec a1) (HexToDec a2)
                                + cs_byte (HexToDec a3) (HexToDec a4) + HexToDec t2
                                + sum_list (decode_pairs ps)
                                + cs_byte (HexToDec k1) (HexToDec k2),
                             calc_cs_toogle := False,
                             state := CHECKSUM_1_STATE\<rparr>"
    have "ihex_loop ?s5 (k1 # k2 # cs) =
       (case finish_record ?s6 of Inl e \<Rightarrow> Inl e | Inr s' \<Rightarrow> ihex_loop s' cs)"
      using kv run_checksum [of ?s5 k1 k2 cs] by simp
    moreover have "?s6 = ?target"
      unfolding sum by (intro parser.equality) simp_all
    ultimately show ?thesis
      unfolding e1 e2 e3 e4 e5 by simp
  qed
qed


lemma record_shaped_split:
  assumes "record_shaped body"
  obtains b1 b2 a1 a2 a3 a4 t1 t2 ps k1 k2 where
    "body = [b1, b2, a1, a2, a3, a4, t1, t2] @ ps @ [k1, k2]"
    and "length ps = 2 * unat (cs_byte (HexToDec b1) (HexToDec b2))"
proof -
  let ?n = "2 * unat (rec_count body)"
  from assms have len: "length body = Suc (Suc (Suc (Suc (Suc (Suc (Suc (Suc (Suc (Suc ?n)))))))))"
    by (simp add: record_shaped_def)
  then obtain b1 b2 a1 a2 a3 a4 t1 t2 r where
    body: "body = b1 # b2 # a1 # a2 # a3 # a4 # t1 # t2 # r" and r: "length r = Suc (Suc ?n)"
    by (auto simp: length_Suc_conv)
  from r obtain ps k1 k2 where r2: "r = ps @ [k1, k2]" and ps: "length ps = ?n"
    by (auto simp: length_Suc_conv_rev)
  have "rec_count body = cs_byte (HexToDec b1) (HexToDec b2)"
    by (simp add: rec_count_def body)
  with ps body r2 that [of b1 b2 a1 a2 a3 a4 t1 t2 ps k1 k2] show ?thesis by simp
qed

lemma rec_fields_chars:
  assumes "length ps = 2 * unat (cs_byte (HexToDec b1) (HexToDec b2))"
  shows "rec_count ([b1, b2, a1, a2, a3, a4, t1, t2] @ ps @ [k1, k2]) = cs_byte (HexToDec b1) (HexToDec b2)"
    and "rec_address ([b1, b2, a1, a2, a3, a4, t1, t2] @ ps @ [k1, k2]) = address_field a1 a2 a3 a4"
    and "rec_type ([b1, b2, a1, a2, a3, a4, t1, t2] @ ps @ [k1, k2]) = HexToDec t2"
    and "rec_payload ([b1, b2, a1, a2, a3, a4, t1, t2] @ ps @ [k1, k2]) = decode_pairs ps"
    and "([b1, b2, a1, a2, a3, a4, t1, t2] @ ps @ [k1, k2]) ! 6 = t1"
    and "([b1, b2, a1, a2, a3, a4, t1, t2] @ ps @ [k1, k2])
           ! (length ([b1, b2, a1, a2, a3, a4, t1, t2] @ ps @ [k1, k2]) - 2) = k1"
  using assms
  by (simp_all add: rec_count_def rec_address_def rec_type_def rec_payload_def nth_append)

lemma record_run:
  assumes "state s = START_CODE_STATE" and "record_shaped body" and "type_accepted body"
  shows "ihex_loop s (58 # body @ cs) =
     (case finish_record (at_checksum s body) of
        Inl e \<Rightarrow> Inl e
      | Inr s' \<Rightarrow> ihex_loop s' cs)"
proof -
  from assms(2) obtain b1 b2 a1 a2 a3 a4 t1 t2 ps k1 k2 where
    body: "body = [b1, b2, a1, a2, a3, a4, t1, t2] @ ps @ [k1, k2]"
    and len: "length ps = 2 * unat (cs_byte (HexToDec b1) (HexToDec b2))"
    by (rule record_shaped_split)
  note f = rec_fields_chars [OF len, of a1 a2 a3 a4 t1 t2 k1 k2]
  from assms(2) have v: "\<forall>c\<in>set ([b1, b2, a1, a2, a3, a4, t1, t2] @ ps @ [k1, k2]).
              HexToDec c \<noteq> INVALID_HEX_CHAR"
    unfolding body record_shaped_def by blast
  from assms(3) have t1: "HexToDec t1 = 0" and t2: "HexToDec t2 \<le> 5 \<or> HexToDec t2 = 0xE"
    unfolding body type_accepted_def f by simp_all
  have "at_checksum s body =
          s\<lparr>state := CHECKSUM_1_STATE,
                byte_count := cs_byte (HexToDec b1) (HexToDec b2),
                address_lo := address_field a1 a2 a3 a4,
                record_type := HexToDec t2,
                data := decode_pairs ps
                        @ replicate (IHEX_DATA_SIZE - unat (cs_byte (HexToDec b1) (HexToDec b2))) 0,
                data_size_in_nibble := of_nat (length ps),
                temp_cs := HexToDec k1,
                calc_cs := sum_list (decode_pairs ([b1, b2, a1, a2, a3, a4, t1, t2] @ ps @ [k1, k2])),
                calc_cs_toogle := False\<rparr>"
    unfolding at_checksum_def body f using len by simp
  with record_run_chars [OF assms(1) v t1 t2 len, of cs] show ?thesis
    unfolding body by simp
qed

lemma unat_ucast_8_16: "unat (ucast (b :: 8 word) :: 16 word) = unat b"
  using unat_8_le [of b] by (simp add: unsigned_ucast_eq take_bit_eq_mod)

lemma unat_nibble_count [simp]: "unat (2 * ucast (b :: 8 word) :: 16 word) = 2 * unat b"
proof -
  have "unat (2 :: 16 word) * unat (ucast b :: 16 word) < 2 ^ LENGTH(16)"
    using unat_8_le [of b] by (simp add: unat_ucast_8_16)
  then have "unat (2 * ucast b :: 16 word) = unat (2 :: 16 word) * unat (ucast b :: 16 word)"
    by (simp only: unat_mult_lem)
  then show ?thesis by (simp add: unat_ucast_8_16)
qed

lemma finish_at_checksum:
  "finish_record (at_checksum s body) =
     (if sum_list (decode_pairs body) \<noteq> 0 then Inl (ChecksumMismatch, at_checksum s body)
      else if rec_type body = 0 \<and> callback_fp s \<noteq> None then
        (if the (callback_fp s)
              (TRANSFORM_ADDR (ex_segment_addr_mode s) (address_hi s) (rec_address body))
              (rec_payload body @ replicate (IHEX_DATA_SIZE - unat (rec_count body)) 0)
              (unat (rec_count body))
         then Inr ((at_checksum s body)
                \<lparr>calls := calls s @
                   [(TRANSFORM_ADDR (ex_segment_addr_mode s) (address_hi s) (rec_address body),
                     rec_payload body @ replicate (IHEX_DATA_SIZE - unat (rec_count body)) 0,
                     unat (rec_count body))],
                 state := START_CODE_STATE\<rparr>)
         else Inl (CallbackRejected, (at_checksum s body)
                \<lparr>calls := calls s @
                   [(TRANSFORM_ADDR (ex_segment_addr_mode s) (address_hi s) (rec_address body),
                     rec_payload body @ replicate (IHEX_DATA_SIZE - unat (rec_count body)) 0,
                     unat (rec_count body))]\<rparr>))
      else if rec_type body = 2 \<or> rec_type body = 4 then
        Inr ((at_checksum s body)
               \<lparr>address_hi :=
                  push_bit 8 (ucast ((rec_payload body
                       @ replicate (IHEX_DATA_SIZE - unat (rec_count body)) 0) ! 0))
                  OR ucast ((rec_payload body
                       @ replicate (IHEX_DATA_SIZE - unat (rec_count body)) 0) ! 1),
                ex_segment_addr_mode := (rec_type body = 2),
                state := START_CODE_STATE\<rparr>)
      else Inr ((at_checksum s body)\<lparr>state := START_CODE_STATE\<rparr>))"
  by (auto simp add: finish_record_def at_checksum_def Let_def unat_half be16_via_int)

section \<open>The two addressing modes\<close>

lemma run_eol:
  assumes "state s = START_CODE_STATE" and "set eol \<subseteq> {13, 10}"
  shows "\<exists>c t. ihex_loop s (eol @ cs) = ihex_loop (s\<lparr>calc_cs := c, calc_cs_toogle := t\<rparr>) cs"
  using assms
proof (induction eol arbitrary: s)
  case Nil
  have "s\<lparr>calc_cs := calc_cs s, calc_cs_toogle := calc_cs_toogle s\<rparr> = s" by simp
  then show ?case by (metis append_Nil)
next
  case (Cons e eol)
  let ?s1 = "s\<lparr>calc_cs := 0, calc_cs_toogle := False\<rparr>"
  from Cons.prems have e: "e = 13 \<or> e = 10" by simp
  with Cons.prems(1) have "ihex_loop s ((e # eol) @ cs) = ihex_loop ?s1 (eol @ cs)"
    by (auto simp: step_START)
  moreover from Cons.IH [of ?s1] Cons.prems obtain c t where
    "ihex_loop ?s1 (eol @ cs) = ihex_loop (?s1\<lparr>calc_cs := c, calc_cs_toogle := t\<rparr>) cs"
    by auto
  ultimately show ?case by (intro exI [of _ c] exI [of _ t]) simp
qed

lemma record_accepted_address:
  assumes "state s = START_CODE_STATE" and "record_shaped body" and "type_accepted body"
    and "rec_type body = 2 \<or> rec_type body = 4"
    and "sum_list (decode_pairs body) = 0"
  shows "ihex_loop s (58 # body @ cs) =
     ihex_loop ((at_checksum s body)
               \<lparr>address_hi :=
                  push_bit 8 (ucast ((rec_payload body
                       @ replicate (IHEX_DATA_SIZE - unat (rec_count body)) 0) ! 0))
                  OR ucast ((rec_payload body
                       @ replicate (IHEX_DATA_SIZE - unat (rec_count body)) 0) ! 1),
                ex_segment_addr_mode := (rec_type body = 2),
                state := START_CODE_STATE\<rparr>) cs"
  using assms(4,5) unfolding record_run [OF assms(1-3)] finish_at_checksum by auto

lemma record_data_outcome:
  assumes "state s = START_CODE_STATE" and "record_shaped body" and "type_accepted body"
    and "rec_type body = 0" and "callback_fp s = Some cb"
    and "sum_list (decode_pairs body) = 0"
  shows "calls (final_state (ihex_loop s (58 # body)))
           = calls s @
             [(TRANSFORM_ADDR (ex_segment_addr_mode s) (address_hi s) (rec_address body),
               rec_payload body @ replicate (IHEX_DATA_SIZE - unat (rec_count body)) 0,
               unat (rec_count body))]"
    and "returned_true (ihex_loop s (58 # body))
           = cb (TRANSFORM_ADDR (ex_segment_addr_mode s) (address_hi s) (rec_address body))
               (rec_payload body @ replicate (IHEX_DATA_SIZE - unat (rec_count body)) 0)
               (unat (rec_count body))"
  using assms(4-6) record_run [OF assms(1-3), of "[]"] unfolding finish_at_checksum
  by (simp_all add: final_state_def returned_true_def)


text \<open>
  Claim C1, as amended. Let the decoder be in the start state with a callback
  registered. Let it be fed an extended linear address record (type 4) or an extended
  segment address record (type 2) whose payload decodes to the bytes \<open>10 00\<close> and whose
  checksum is right, then any number of line terminators, then a data record (type 0)
  whose address field is \<open>0x0020\<close> and whose checksum is right. Then the callback is
  invoked once, with the whole payload buffer and the byte count of the data record,
  and with the absolute address \<open>(0x1000 << 16) | 0x0020 = 0x10000020\<close> after the type 4
  record, \<open>(0x1000 << 4) + 0x0020 = 0x00010020\<close> after the type 2 record; the call of
  \<open>ihex_parser\<close> returns what the callback returns.
\<close>

theorem address_record_then_data:
  assumes "state s = START_CODE_STATE" and "callback_fp s = Some cb"
    and "record_shaped adr" and "type_accepted adr"
    and "rec_type adr = 4 \<or> rec_type adr = 2"
    and "rec_payload adr = [0x10, 0x00]" and "sum_list (decode_pairs adr) = 0"
    and "set eol \<subseteq> {13, 10}"
    and "record_shaped dat" and "type_accepted dat" and "rec_type dat = 0"
    and "rec_address dat = 0x0020" and "sum_list (decode_pairs dat) = 0"
    and "unat sz \<le> length steambuf"
    and "take (unat sz) steambuf = 58 # adr @ eol @ 58 # dat"
  shows "\<exists>r. ihex_parser s steambuf sz = Some r
     \<and> calls (final_state r) = calls s @
           [(if rec_type adr = 4 then 0x10000020 else 0x00010020,
             rec_payload dat @ replicate (IHEX_DATA_SIZE - unat (rec_count dat)) 0,
             unat (rec_count dat))]
     \<and> returned_true r =
           cb (if rec_type adr = 4 then 0x10000020 else 0x00010020)
              (rec_payload dat @ replicate (IHEX_DATA_SIZE - unat (rec_count dat)) 0)
              (unat (rec_count dat))"
proof -
  let ?s1 = "(at_checksum s adr)
               \<lparr>address_hi :=
                  push_bit 8 (ucast ((rec_payload adr
                       @ replicate (IHEX_DATA_SIZE - unat (rec_count adr)) 0) ! 0))
                  OR ucast ((rec_payload adr
                       @ replicate (IHEX_DATA_SIZE - unat (rec_count adr)) 0) ! 1),
                ex_segment_addr_mode := (rec_type adr = 2),
                state := START_CODE_STATE\<rparr>"
  from assms(5) have ty: "rec_type adr = 2 \<or> rec_type adr = 4" by blast
  have one: "ihex_loop s (58 # adr @ eol @ 58 # dat) = ihex_loop ?s1 (eol @ 58 # dat)"
    by (rule record_accepted_address [OF assms(1,3,4) ty assms(7)])
  have st1: "state ?s1 = START_CODE_STATE" by simp
  from run_eol [OF st1 assms(8), of "58 # dat"] obtain c t where
    two: "ihex_loop ?s1 (eol @ 58 # dat)
            = ihex_loop (?s1\<lparr>calc_cs := c, calc_cs_toogle := t\<rparr>) (58 # dat)"
    (is "_ = ihex_loop ?s2 _")
    by blast
  have st2: "state ?s2 = START_CODE_STATE" by simp
  have cb2: "callback_fp ?s2 = Some cb" using assms(2) by (simp add: at_checksum_def)
  have calls2: "calls ?s2 = calls s" by (simp add: at_checksum_def)
  have hi: "address_hi ?s2 = 0x1000" using assms(6) by simp
  have mode: "ex_segment_addr_mode ?s2 = (rec_type adr = 2)" by simp
  have "rec_type adr = 4 \<longleftrightarrow> rec_type adr \<noteq> 2" using assms(5) by auto
  then have addr: "TRANSFORM_ADDR (ex_segment_addr_mode ?s2) (address_hi ?s2) (rec_address dat)
          = (if rec_type adr = 4 then 0x10000020 else 0x00010020)"
    unfolding hi mode assms(12) by (simp add: TRANSFORM_ADDR_def)
  note out = record_data_outcome [OF st2 assms(9,10,11) cb2 assms(13)]
  have loop: "ihex_loop s (take (unat sz) steambuf) = ihex_loop ?s2 (58 # dat)"
    unfolding assms(15) one two ..
  have "ihex_parser s steambuf sz = Some (ihex_loop ?s2 (58 # dat))"
    using assms(14) loop by (simp add: ihex_parser_def)
  with out show ?thesis
    unfolding addr calls2 by blast
qed

text \<open>
  The streams \<open>":020000041000EA" CR LF ":01002000558A"\<close> and
  \<open>":020000021000EC" CR LF ":01002000558A"\<close> from the initial variables, with a callback
  that accepts.
\<close>

theorem address_record_then_data_witness:
  "(\<exists>r. ihex_parser (ihex_set_callback_func (Some accept_all) initial_parser)
        (bytes '':020000041000EA'' @ [13, 10] @ bytes '':01002000558A'') 30 = Some r
     \<and> calls (final_state r) = [(0x10000020, 0x55 # replicate 254 0, 1)]
     \<and> returned_true r)
   \<and> (\<exists>r. ihex_parser (ihex_set_callback_func (Some accept_all) initial_parser)
        (bytes '':020000021000EC'' @ [13, 10] @ bytes '':01002000558A'') 30 = Some r
     \<and> calls (final_state r) = [(0x00010020, 0x55 # replicate 254 0, 1)]
     \<and> returned_true r)"
proof -
  let ?s = "ihex_set_callback_func (Some accept_all) initial_parser"
  let ?lin = "bytes ''020000041000EA''"
  let ?seg = "bytes ''020000021000EC''"
  let ?dat = "bytes ''01002000558A''"
  let ?buf = "bytes '':020000041000EA'' @ [13, 10] @ bytes '':01002000558A''"
  let ?buf' = "bytes '':020000021000EC'' @ [13, 10] @ bytes '':01002000558A''"
  have h1: "state ?s = START_CODE_STATE"
    by (simp add: ihex_set_callback_func_def initial_parser_def)
  have h2: "callback_fp ?s = Some accept_all"
    by (simp add: ihex_set_callback_func_def)
  have h3: "record_shaped ?lin" by code_simp
  have h4: "type_accepted ?lin" by code_simp
  have h5: "rec_type ?lin = 4 \<or> rec_type ?lin = 2" by code_simp
  have h6: "rec_payload ?lin = [0x10, 0x00]" by code_simp
  have h7: "sum_list (decode_pairs ?lin) = 0" by code_simp
  have g3: "record_shaped ?seg" by code_simp
  have g4: "type_accepted ?seg" by code_simp
  have g5: "rec_type ?seg = 4 \<or> rec_type ?seg = 2" by code_simp
  have g6: "rec_payload ?seg = [0x10, 0x00]" by code_simp
  have g7: "sum_list (decode_pairs ?seg) = 0" by code_simp
  have h8: "set [13, 10 :: 8 word] \<subseteq> {13, 10}" by simp
  have h9: "record_shaped ?dat" by code_simp
  have h10: "type_accepted ?dat" by code_simp
  have h11: "rec_type ?dat = 0" by code_simp
  have h12: "rec_address ?dat = 0x0020" by code_simp
  have h13: "sum_list (decode_pairs ?dat) = 0" by code_simp
  have h14: "unat (30 :: 32 word) \<le> length ?buf" by (simp add: bytes_def)
  have h15: "take (unat (30 :: 32 word)) ?buf = 58 # ?lin @ [13, 10] @ 58 # ?dat"
    by (simp add: bytes_def)
  have g14: "unat (30 :: 32 word) \<le> length ?buf'" by (simp add: bytes_def)
  have g15: "take (unat (30 :: 32 word)) ?buf' = 58 # ?seg @ [13, 10] @ 58 # ?dat"
    by (simp add: bytes_def)
  have t: "rec_type ?lin = 4" by code_simp
  have u: "rec_type ?seg \<noteq> 4" by code_simp
  have p: "rec_payload ?dat = [0x55]" by code_simp
  have n: "unat (rec_count ?dat) = 1" by code_simp
  have c: "calls ?s = []" by (simp add: ihex_set_callback_func_def initial_parser_def)
  from address_record_then_data [OF h1 h2 h3 h4 h5 h6 h7 h8 h9 h10 h11 h12 h13 h14 h15]
  have lin: "\<exists>r. ihex_parser ?s ?buf 30 = Some r
     \<and> calls (final_state r) = [(0x10000020, 0x55 # replicate 254 0, 1)]
     \<and> returned_true r"
    unfolding t p n c by (simp add: accept_all_def)
  from address_record_then_data [OF h1 h2 g3 g4 g5 g6 g7 h8 h9 h10 h11 h12 h13 g14 g15]
  have seg: "\<exists>r. ihex_parser ?s ?buf' 30 = Some r
     \<and> calls (final_state r) = [(0x00010020, 0x55 # replicate 254 0, 1)]
     \<and> returned_true r"
    unfolding p n c using u by (simp add: accept_all_def)
  from lin seg show ?thesis by blast
qed

text \<open>
  The address stated for the type 4 record in the specification is \<open>0x00100020\<close>.
  The decoder invokes the callback with \<open>0x10000020\<close>: the payload \<open>10 00\<close> is the
  upper half \<open>0x1000\<close> of the address, as the format defines it.
\<close>

theorem linear_address_counterexample:
  "callback_addresses
     (ihex_parser (ihex_set_callback_func (Some accept_all) initial_parser)
        (bytes '':020000041000EA'' @ [13, 10] @ bytes '':01002000558A'') 30)
     = Some [0x10000020]
   \<and> (0x10000020 :: 32 word) \<noteq> 0x00100020"
  by code_simp

section \<open>Records that fail\<close>

lemma record_bad_type:
  assumes "state s = START_CODE_STATE" and "record_shaped body" and "\<not> type_accepted body"
  shows "\<exists>e s'. ihex_loop s (58 # body @ cs) = Inl (e, s')
           \<and> address_hi s' = address_hi s
           \<and> ex_segment_addr_mode s' = ex_segment_addr_mode s"
proof -
  from assms(2) obtain b1 b2 a1 a2 a3 a4 t1 t2 ps k1 k2 where
    body: "body = [b1, b2, a1, a2, a3, a4, t1, t2] @ ps @ [k1, k2]"
    and len: "length ps = 2 * unat (cs_byte (HexToDec b1) (HexToDec b2))"
    by (rule record_shaped_split)
  note f = rec_fields_chars [OF len, of a1 a2 a3 a4 t1 t2 k1 k2]
  from assms(2) have v: "\<forall>c\<in>set ([b1, b2, a1, a2, a3, a4, t1, t2] @ ps @ [k1, k2]).
              HexToDec c \<noteq> INVALID_HEX_CHAR"
    unfolding body record_shaped_def by blast
  from assms(3) have bad: "HexToDec t1 \<noteq> 0 \<or> \<not> (HexToDec t2 \<le> 5 \<or> HexToDec t2 = 0xE)"
    unfolding body type_accepted_def f by blast
  let ?bc = "cs_byte (HexToDec b1) (HexToDec b2)"
  let ?s1 = "s\<lparr>calc_cs := 0, calc_cs_toogle := False, byte_count := 0, record_type := 0,
               address_lo := 0, data := replicate IHEX_DATA_SIZE 0,
               data_size_in_nibble := 0, state := BYTE_COUNT_0_STATE\<rparr>"
  let ?s2 = "?s1\<lparr>temp_cs := HexToDec b1,
                 calc_cs := ?bc,
                 calc_cs_toogle := False, byte_count := ?bc, state := ADDR_0_STATE\<rparr>"
  let ?s3 = "?s2\<lparr>temp_cs := HexToDec a3,
                 calc_cs := ?bc + cs_byte (HexToDec a1) (HexToDec a2)
                            + cs_byte (HexToDec a3) (HexToDec a4),
                 calc_cs_toogle := False,
                 address_lo := address_field a1 a2 a3 a4,
                 state := RECORD_TYPE_0_STATE\<rparr>"
  let ?tail = "ps @ k1 # k2 # cs"
  have e1: "ihex_loop s (58 # body @ cs)
            = ihex_loop ?s1 ([b1, b2, a1, a2, a3, a4, t1, t2] @ ?tail)"
    unfolding body using run_start [OF assms(1)] by simp
  have e2: "ihex_loop ?s1 ([b1, b2, a1, a2, a3, a4, t1, t2] @ ?tail)
            = ihex_loop ?s2 ([a1, a2, a3, a4, t1, t2] @ ?tail)"
    using v run_byte_count [of ?s1 b1 b2 "[a1, a2, a3, a4, t1, t2] @ ?tail"] by simp
  have e3: "ihex_loop ?s2 ([a1, a2, a3, a4, t1, t2] @ ?tail) = ihex_loop ?s3 (t1 # t2 # ?tail)"
    using v run_address [of ?s2 a1 a2 a3 a4 "[t1, t2] @ ?tail"] by simp
  have tv: "HexToDec t1 \<noteq> INVALID_HEX_CHAR" "HexToDec t2 \<noteq> INVALID_HEX_CHAR"
    using v by simp_all
  have st3: "state ?s3 = RECORD_TYPE_0_STATE" by simp
  show ?thesis
  proof (cases "HexToDec t1 = 0")
    case False
    then have one: "ihex_step ?s3 t1 = Inl (BadRecordTypeHigh, checksum_update (HexToDec t1) ?s3)"
      using step_RECORD_TYPE_0 [OF st3 tv(1)] by simp
    have "ihex_loop ?s3 (t1 # t2 # ?tail)
                 = Inl (BadRecordTypeHigh, checksum_update (HexToDec t1) ?s3)"
      using tv one by (simp add: loop_cons_valid del: ihex_loop.simps(2))
    then show ?thesis unfolding e1 e2 e3 by simp
  next
    case True
    let ?s4 = "(checksum_update (HexToDec t1) ?s3)\<lparr>state := RECORD_TYPE_1_STATE\<rparr>"
    from True have one: "ihex_step ?s3 t1 = Inr ?s4"
      using step_RECORD_TYPE_0 [OF st3 tv(1)] by simp
    have st4: "state ?s4 = RECORD_TYPE_1_STATE" by simp
    from True bad have "\<not> (HexToDec t2 \<le> 5 \<or> HexToDec t2 = 0xE)" by blast
    then have two: "ihex_step ?s4 t2 = Inl (BadRecordTypeLow, checksum_update (HexToDec t2) ?s4)"
      using step_RECORD_TYPE_1 [OF st4 tv(2)] by simp
    have "ihex_loop ?s3 (t1 # t2 # ?tail)
            = Inl (BadRecordTypeLow, checksum_update (HexToDec t2) ?s4)"
      using tv one two by (simp add: loop_cons_valid del: ihex_loop.simps(2))
    then show ?thesis unfolding e1 e2 e3 by simp
  qed
qed

lemma record_bad_sum:
  assumes "state s = START_CODE_STATE" and "record_shaped body"
    and "sum_list (decode_pairs body) \<noteq> 0"
  shows "\<exists>e s'. ihex_loop s (58 # body @ cs) = Inl (e, s')
           \<and> address_hi s' = address_hi s
           \<and> ex_segment_addr_mode s' = ex_segment_addr_mode s"
proof (cases "type_accepted body")
  case False
  from record_bad_type [OF assms(1,2) False] show ?thesis .
next
  case True
  from record_run [OF assms(1,2) True, of cs] assms(3) show ?thesis
    unfolding finish_at_checksum by (simp add: at_checksum_def)
qed

section \<open>The checksum\<close>

lemma nibble_bits:
  "h < 16 \<Longrightarrow> 4 \<le> n \<Longrightarrow> \<not> bit h n" for h :: "8 word"
proof -
  assume h: "h < 16" and n: "4 \<le> n"
  from h have "unat h < 2 ^ 4" by (simp add: word_less_nat_alt)
  then have "take_bit 4 (unat h) = unat h" by (simp add: take_bit_nat_eq_self_iff)
  then have "take_bit 4 h = h"
    by (metis unsigned_take_bit_eq word_unat_eq_iff)
  then have "bit h n = bit (take_bit 4 h) n" by simp
  also have "\<dots> = False" using n by (simp add: bit_take_bit_iff)
  finally show ?thesis by simp
qed

text \<open>
  For digits that decode to a nibble, the two address pairs of \<open>decode_pairs\<close> are the
  high and the low byte of the address field.
\<close>

lemma address_field_bytes:
  assumes "HexToDec a1 < 16" and "HexToDec a2 < 16" and "HexToDec a3 < 16" and "HexToDec a4 < 16"
  shows "address_field a1 a2 a3 a4
           = push_bit 8 (ucast (cs_byte (HexToDec a1) (HexToDec a2)))
             OR ucast (cs_byte (HexToDec a3) (HexToDec a4))"
  unfolding address_field_def addr_shift_def cs_byte_def
  using nibble_bits [OF assms(1)] nibble_bits [OF assms(2)]
    nibble_bits [OF assms(3)] nibble_bits [OF assms(4)]
  by (intro bit_word_eqI) (auto simp: bit_simps)

lemma decode_pairs_update:
  "Suc (2 * i) < length xs \<Longrightarrow>
   decode_pairs (xs[2 * i := a, Suc (2 * i) := b])
     = (decode_pairs xs)[i := cs_byte (HexToDec a) (HexToDec b)]"
proof (induction xs arbitrary: i rule: decode_pairs.induct)
  case (1 x y rest)
  then show ?case by (cases i) simp_all
qed simp_all

lemma length_decode_pairs: "length (decode_pairs xs) = length xs div 2"
  by (induction xs rule: decode_pairs.induct) simp_all

lemma decode_pairs_drop: "decode_pairs (drop (2 * n) xs) = drop n (decode_pairs xs)"
proof (induction xs arbitrary: n rule: decode_pairs.induct)
  case (1 x y rest)
  then show ?case by (cases n) simp_all
qed (simp_all add: drop_Cons')

lemma decode_pairs_take: "decode_pairs (take (2 * n) xs) = take n (decode_pairs xs)"
proof (induction xs arbitrary: n rule: decode_pairs.induct)
  case (1 x y rest)
  then show ?case by (cases n) simp_all
qed (simp_all add: take_Cons')

lemma sum_list_update_word:
  "i < length xs \<Longrightarrow> sum_list (xs[i := y]) = sum_list xs - xs ! i + y" for xs :: "8 word list"
proof (induction xs arbitrary: i)
  case Nil
  then show ?case by simp
next
  case (Cons x xs)
  then show ?case by (cases i) simp_all
qed

lemma rec_payload_nth:
  assumes "record_shaped body" and "j < unat (rec_count body)"
  shows "rec_payload body ! j = decode_pairs body ! (4 + j)"
proof -
  have "rec_payload body = take (unat (rec_count body)) (drop 4 (decode_pairs body))"
    using decode_pairs_drop [of 4 body]
    by (simp add: rec_payload_def decode_pairs_take)
  moreover from assms have "4 + j < length (decode_pairs body)"
    by (simp add: length_decode_pairs record_shaped_def)
  ultimately show ?thesis using assms(2) by simp
qed


lemma set_payload_byte_decode:
  assumes "record_shaped body" and "j < unat (rec_count body)"
  shows "decode_pairs (set_payload_byte j a b body)
           = (decode_pairs body)[4 + j := cs_byte (HexToDec a) (HexToDec b)]"
proof -
  from assms have "Suc (2 * (4 + j)) < length body" by (simp add: record_shaped_def)
  from decode_pairs_update [OF this, of a b] show ?thesis
    by (simp add: set_payload_byte_def)
qed

lemma set_payload_byte_shaped:
  assumes "record_shaped body" and "j < unat (rec_count body)"
    and "HexToDec a \<noteq> INVALID_HEX_CHAR" and "HexToDec b \<noteq> INVALID_HEX_CHAR"
  shows "record_shaped (set_payload_byte j a b body)"
proof -
  have cnt: "rec_count (set_payload_byte j a b body) = rec_count body"
    by (simp add: rec_count_def set_payload_byte_def)
  have "set (set_payload_byte j a b body) \<subseteq> insert b (insert a (set body))"
    unfolding set_payload_byte_def
    by (meson insert_mono set_update_subset_insert subset_trans)
  with assms(1,3,4) have "\<forall>c\<in>set (set_payload_byte j a b body). HexToDec c \<noteq> INVALID_HEX_CHAR"
    unfolding record_shaped_def by blast
  moreover have "length (set_payload_byte j a b body) = length body"
    by (simp add: set_payload_byte_def)
  ultimately show ?thesis using assms(1) cnt by (simp add: record_shaped_def)
qed

lemma set_payload_byte_sum:
  assumes "record_shaped body" and "j < unat (rec_count body)"
    and "sum_list (decode_pairs body) = 0"
    and "cs_byte (HexToDec a) (HexToDec b) \<noteq> rec_payload body ! j"
  shows "sum_list (decode_pairs (set_payload_byte j a b body)) \<noteq> 0"
proof -
  from assms(1,2) have lt: "4 + j < length (decode_pairs body)"
    by (simp add: length_decode_pairs record_shaped_def)
  have "sum_list (decode_pairs (set_payload_byte j a b body))
          = sum_list (decode_pairs body) - decode_pairs body ! (4 + j)
            + cs_byte (HexToDec a) (HexToDec b)"
    unfolding set_payload_byte_decode [OF assms(1,2)] by (rule sum_list_update_word [OF lt])
  also have "\<dots> = cs_byte (HexToDec a) (HexToDec b) - rec_payload body ! j"
    using assms(3) rec_payload_nth [OF assms(1,2)] by simp
  finally show ?thesis using assms(4) by simp
qed

lemma parser_rejects:
  assumes "unat sz \<le> length steambuf" and "take (unat sz) steambuf = cs"
    and "\<exists>e s'. ihex_loop s cs = Inl (e, s') \<and> P s'"
  shows "\<exists>e s'. ihex_parser s steambuf sz = Some (Inl (e, s'))"
  using assms by (auto simp: ihex_parser_def)

text \<open>
  Claim C2. Let the decoder, in the start state, be fed a colon and the body of a
  record: hex digits only, as many payload digits as the byte count declares. The bytes
  that the record decodes to are \<open>decode_pairs body\<close>: byte count, two address bytes,
  record type, payload bytes and checksum byte. If their sum modulo 256 is not 0, the
  call returns false, whatever follows the record. In particular, if the sum of a
  record is 0 and the two digits of one payload byte are replaced by digits that decode
  to another byte, the call on the changed record returns false.
\<close>

theorem checksum_gate:
  assumes "state s = START_CODE_STATE" and "record_shaped body"
  shows "(sum_list (decode_pairs body) \<noteq> 0 \<longrightarrow>
            unat sz \<le> length steambuf \<longrightarrow>
            take (unat sz) steambuf = 58 # body @ rest \<longrightarrow>
            (\<exists>e s'. ihex_parser s steambuf sz = Some (Inl (e, s'))))
     \<and> (sum_list (decode_pairs body) = 0 \<longrightarrow>
            j < unat (rec_count body) \<longrightarrow>
            HexToDec a \<noteq> INVALID_HEX_CHAR \<longrightarrow> HexToDec b \<noteq> INVALID_HEX_CHAR \<longrightarrow>
            cs_byte (HexToDec a) (HexToDec b) \<noteq> rec_payload body ! j \<longrightarrow>
            unat sz \<le> length steambuf \<longrightarrow>
            take (unat sz) steambuf = 58 # set_payload_byte j a b body @ rest \<longrightarrow>
            (\<exists>e s'. ihex_parser s steambuf sz = Some (Inl (e, s'))))"
proof (intro conjI impI)
  assume "sum_list (decode_pairs body) \<noteq> 0" and "unat sz \<le> length steambuf"
    and "take (unat sz) steambuf = 58 # body @ rest"
  with record_bad_sum [OF assms, of rest]
  show "\<exists>e s'. ihex_parser s steambuf sz = Some (Inl (e, s'))"
    by (intro parser_rejects) auto
next
  assume zero: "sum_list (decode_pairs body) = 0" and j: "j < unat (rec_count body)"
    and a: "HexToDec a \<noteq> INVALID_HEX_CHAR" and b: "HexToDec b \<noteq> INVALID_HEX_CHAR"
    and ne: "cs_byte (HexToDec a) (HexToDec b) \<noteq> rec_payload body ! j"
    and sz: "unat sz \<le> length steambuf"
    and buf: "take (unat sz) steambuf = 58 # set_payload_byte j a b body @ rest"
  have shaped: "record_shaped (set_payload_byte j a b body)"
    by (rule set_payload_byte_shaped [OF assms(2) j a b])
  have "sum_list (decode_pairs (set_payload_byte j a b body)) \<noteq> 0"
    by (rule set_payload_byte_sum [OF assms(2) j zero ne])
  from record_bad_sum [OF assms(1) shaped this, of rest] sz buf
  show "\<exists>e s'. ihex_parser s steambuf sz = Some (Inl (e, s'))"
    by (intro parser_rejects) auto
qed


section \<open>A record shorter than its byte count\<close>

lemma fields_cases:
  assumes "in_fields s"
  obtains "state s = ADDR_0_STATE" | "state s = ADDR_1_STATE" | "state s = ADDR_2_STATE"
    | "state s = ADDR_3_STATE" | "state s = RECORD_TYPE_0_STATE"
    | "state s = RECORD_TYPE_1_STATE" | "state s = DATA_STATE"
  using assms unfolding in_fields_def
  by (cases "state s" rule: state_cases) (auto simp: word_less_nat_alt)

lemma fields_step:
  assumes "in_fields s" and "ihex_step s c = Inr s'"
  shows "(if digits_left s = 1 then state s' = CHECKSUM_0_STATE
          else in_fields s' \<and> Suc (digits_left s') = digits_left s)"
proof -
  from assms(1) have pos: "0 < unat (byte_count s)"
    by (simp add: in_fields_def)
  then have bc: "byte_count s \<noteq> 0" by auto
  have v: "HexToDec c \<noteq> INVALID_HEX_CHAR"
    using assms(2) by (rule_tac fields_cases [OF assms(1)]) (auto simp: step_invalid_hex)
  from assms(1) show ?thesis
  proof (cases rule: fields_cases)
    case 1
    with assms pos v show ?thesis
      by (auto simp: step_ADDR in_fields_def digits_left_def)
  next
    case 2
    with assms pos v show ?thesis
      by (auto simp: step_ADDR in_fields_def digits_left_def)
  next
    case 3
    with assms pos v show ?thesis
      by (auto simp: step_ADDR in_fields_def digits_left_def)
  next
    case 4
    with assms pos v show ?thesis
      by (auto simp: step_ADDR in_fields_def digits_left_def)
  next
    case 5
    with assms pos v show ?thesis
      by (auto simp: step_RECORD_TYPE_0 in_fields_def digits_left_def split: if_splits)
  next
    case 6
    with assms pos v show ?thesis
      by (auto simp: step_RECORD_TYPE_1 in_fields_def digits_left_def split: if_splits)
  next
    case 7
    with assms(1) have lt: "unat (data_size_in_nibble s) < 2 * unat (byte_count s)"
      by (simp add: in_fields_def)
    with unat_8_le [of "byte_count s"] have "unat (data_size_in_nibble s) < 510" by simp
    then have suc: "unat (data_size_in_nibble s + 1) = Suc (unat (data_size_in_nibble s))"
      by (rule unat_succ16)
    from assms(2) 7 v lt suc bc show ?thesis
      by (auto simp: step_DATA Let_def in_fields_def digits_left_def unat_half
            split: if_splits)
  qed
qed

lemma fields_run:
  assumes "in_fields s" and "length cs = digits_left s" and "0 \<notin> set cs"
  shows "(\<exists>e s'. ihex_loop s (cs @ rest) = Inl (e, s'))
         \<or> (\<exists>s'. state s' = CHECKSUM_0_STATE \<and> ihex_loop s (cs @ rest) = ihex_loop s' rest)"
  using assms
proof (induction cs arbitrary: s)
  case Nil
  then show ?case by (auto simp: in_fields_def digits_left_def split: if_splits)
next
  case (Cons c cs)
  from Cons.prems have c: "c \<noteq> 0" by auto
  show ?case
  proof (cases "ihex_step s c")
    case (Inl e)
    with c show ?thesis by (cases e) simp
  next
    case (Inr s1)
    note step = fields_step [OF Cons.prems(1) Inr]
    show ?thesis
    proof (cases "digits_left s = 1")
      case True
      with Cons.prems(2) have "cs = []" by simp
      with True step Inr c show ?thesis by auto
    next
      case False
      with step have f: "in_fields s1" and d: "Suc (digits_left s1) = digits_left s" by simp_all
      from d Cons.prems(2) have "length cs = digits_left s1" by simp
      from Cons.IH [OF f this] Cons.prems(3) Inr c show ?thesis by simp
    qed
  qed
qed

lemma eol_in_hex_state:
  assumes "BYTE_COUNT_0_STATE \<le> state s" and "state s \<le> CHECKSUM_1_STATE"
    and "c = 13 \<or> c = 10 \<or> c = 58"
  shows "ihex_loop s (c # rest) = Inl (InvalidHexChar, s)"
proof -
  from assms(3) have "HexToDec c = INVALID_HEX_CHAR" and "c \<noteq> 0"
    by (auto simp: HexToDec_def)
  with assms(1,2) show ?thesis by (simp add: step_invalid_hex)
qed

lemma short_record_run:
  assumes "length digs = 14" and "0 \<notin> set digs" and "eol = 13 \<or> eol = 10"
  shows "\<exists>e s'. ihex_loop s ([58, 48, 52] @ digs @ [eol] @ rest) = Inl (e, s')"
proof (cases "state s = START_CODE_STATE")
  case False
  show ?thesis
  proof (cases "state s \<le> CHECKSUM_1_STATE")
    case True
    with False have "BYTE_COUNT_0_STATE \<le> state s" by (simp add: word_le_nat_alt unat_gt_0 Suc_le_eq)
    from eol_in_hex_state [OF this True, of 58] show ?thesis by simp
  next
    case False
    then have "CHECKSUM_1_STATE < state s" by simp
    then show ?thesis by (simp add: step_bad_state)
  qed
next
  case True
  let ?s1 = "s\<lparr>calc_cs := 0, calc_cs_toogle := False, byte_count := 0, record_type := 0,
               address_lo := 0, data := replicate IHEX_DATA_SIZE 0,
               data_size_in_nibble := 0, state := BYTE_COUNT_0_STATE\<rparr>"
  let ?s2 = "?s1\<lparr>temp_cs := HexToDec 48,
                 calc_cs := calc_cs ?s1 + cs_byte (HexToDec 48) (HexToDec 52),
                 calc_cs_toogle := False,
                 byte_count := cs_byte (HexToDec 48) (HexToDec 52),
                 state := ADDR_0_STATE\<rparr>"
  have v: "HexToDec 48 \<noteq> INVALID_HEX_CHAR" "HexToDec 52 \<noteq> INVALID_HEX_CHAR"
    by (simp_all add: HexToDec_def)
  have bc: "cs_byte (HexToDec 48) (HexToDec 52) = 4"
    by (simp add: HexToDec_def cs_byte_def)
  have e1: "ihex_loop s ([58, 48, 52] @ digs @ [eol] @ rest)
              = ihex_loop ?s1 (48 # 52 # digs @ [eol] @ rest)"
    using run_start [OF True] by simp
  have e2: "ihex_loop ?s1 (48 # 52 # digs @ [eol] @ rest)
              = ihex_loop ?s2 (digs @ [eol] @ rest)"
    using v by (intro run_byte_count) simp_all
  have f: "in_fields ?s2" by (simp add: in_fields_def bc)
  have d: "length digs = digits_left ?s2" using assms(1) by (simp add: digits_left_def bc)
  from fields_run [OF f d assms(2), of "[eol] @ rest"]
  show ?thesis
  proof
    assume "\<exists>e s'. ihex_loop ?s2 (digs @ [eol] @ rest) = Inl (e, s')"
    then show ?thesis unfolding e1 e2 .
  next
    assume "\<exists>s'. state s' = CHECKSUM_0_STATE
              \<and> ihex_loop ?s2 (digs @ [eol] @ rest) = ihex_loop s' ([eol] @ rest)"
    then obtain s' where st: "state s' = CHECKSUM_0_STATE"
      and l: "ihex_loop ?s2 (digs @ [eol] @ rest) = ihex_loop s' ([eol] @ rest)"
      by blast
    from st assms(3) have "ihex_loop s' (eol # rest) = Inl (InvalidHexChar, s')"
      by (intro eol_in_hex_state) auto
    then show ?thesis unfolding e1 e2 l by simp
  qed
qed

text \<open>
  Claim C7. Let the bytes fed hold a record that declares the byte count \<open>04\<close> and
  carries, after the colon and the count, fourteen more characters (four address
  digits, two type digits, three payload pairs, two checksum digits) and then a
  carriage return or a line feed. Let no null byte stand before the line terminator: a
  null byte ends the input before the record is read. Then the call returns false, in
  whatever state the decoder was and whatever surrounds the record. The decoder takes
  the checksum digits as the fourth payload byte and meets the line terminator where it
  expects a checksum digit; the comparison of line 261 is not what rejects the record.
\<close>

theorem short_payload_rejected:
  assumes "unat sz \<le> length steambuf"
    and "take (unat sz) steambuf = pre @ [58, 48, 52] @ digs @ [eol] @ rest"
    and "0 \<notin> set pre" and "length digs = 14" and "0 \<notin> set digs"
    and "eol = 13 \<or> eol = 10"
  shows "\<exists>e s'. ihex_parser s steambuf sz = Some (Inl (e, s'))"
proof -
  let ?rec = "[58, 48, 52] @ digs @ [eol] @ rest"
  from assms(3) have nz: "\<forall>c\<in>set pre. c \<noteq> 0" by auto
  have "\<exists>e s'. ihex_loop s (pre @ ?rec) = Inl (e, s')"
  proof (cases "ihex_loop s pre")
    case (Inl x)
    then show ?thesis unfolding loop_append [OF nz] by (cases x) simp
  next
    case (Inr s1)
    with short_record_run [OF assms(4,5,6), of s1 rest] show ?thesis
      unfolding loop_append [OF nz] by simp
  qed
  with assms(1,2) show ?thesis by (auto simp: ihex_parser_def)
qed


text \<open>
  A stream of three records, the second declaring four bytes and carrying three.
\<close>

theorem short_payload_rejected_witness:
  "\<exists>e s'. ihex_parser initial_parser
       (bytes '':020000041000EA'' @ [13, 10] @ bytes '':04002000AABBCC8B'' @ [13, 10]
          @ bytes '':00000001FF'') 47 = Some (Inl (e, s'))"
proof -
  let ?buf = "bytes '':020000041000EA'' @ [13, 10] @ bytes '':04002000AABBCC8B'' @ [13, 10]
          @ bytes '':00000001FF''"
  let ?pre = "bytes '':020000041000EA'' @ [13, 10]"
  let ?digs = "bytes ''002000AABBCC8B''"
  have 1: "unat (47 :: 32 word) \<le> length ?buf" by (simp add: bytes_def)
  have 2: "take (unat (47 :: 32 word)) ?buf
             = ?pre @ [58, 48, 52] @ ?digs @ [13] @ (10 # bytes '':00000001FF'')"
    by (simp add: bytes_def)
  have 3: "0 \<notin> set ?pre" by (simp add: bytes_def)
  have 4: "length ?digs = 14" by (simp add: bytes_def)
  have 5: "0 \<notin> set ?digs" by (simp add: bytes_def)
  have 6: "(13 :: 8 word) = 13 \<or> (13 :: 8 word) = 10" by simp
  from short_payload_rejected [OF 1 2 3 4 5 6] show ?thesis .
qed

text \<open>
  The record \<open>":0300300002337A1F"\<close> has a wrong checksum and is rejected. The record
  \<open>":0300300002337A1E"\<close> is accepted; with its second payload byte changed from
  \<open>33\<close> to \<open>34\<close> it is rejected.
\<close>

theorem checksum_gate_witness:
  "record_shaped (bytes ''0300300002337A1F'')
   \<and> sum_list (decode_pairs (bytes ''0300300002337A1F'')) \<noteq> 0
   \<and> (\<exists>e s'. ihex_parser initial_parser (bytes '':0300300002337A1F'' @ [13, 10]) 19
                = Some (Inl (e, s')))
   \<and> record_shaped (bytes ''0300300002337A1E'')
   \<and> sum_list (decode_pairs (bytes ''0300300002337A1E'')) = 0
   \<and> map_option returned_true
         (ihex_parser initial_parser (bytes '':0300300002337A1E'' @ [13, 10]) 19) = Some True
   \<and> set_payload_byte 1 51 52 (bytes ''0300300002337A1E'') = bytes ''0300300002347A1E''
   \<and> (\<exists>e s'. ihex_parser initial_parser (bytes '':0300300002347A1E'' @ [13, 10]) 19
                = Some (Inl (e, s')))"
proof -
  let ?bad = "bytes ''0300300002337A1F''"
  let ?good = "bytes ''0300300002337A1E''"
  have st: "state initial_parser = START_CODE_STATE" by (simp add: initial_parser_def)
  have b1: "record_shaped ?bad" by code_simp
  have b2: "sum_list (decode_pairs ?bad) \<noteq> 0" by code_simp
  have b3: "unat (19 :: 32 word) \<le> length (bytes '':0300300002337A1F'' @ [13, 10])"
    by (simp add: bytes_def)
  have b4: "take (unat (19 :: 32 word)) (bytes '':0300300002337A1F'' @ [13, 10])
              = 58 # ?bad @ [13, 10]"
    by (simp add: bytes_def)
  have g1: "record_shaped ?good" by code_simp
  have g2: "sum_list (decode_pairs ?good) = 0" by code_simp
  have g3: "(1 :: nat) < unat (rec_count ?good)" by code_simp
  have g4: "HexToDec 51 \<noteq> INVALID_HEX_CHAR" "HexToDec 52 \<noteq> INVALID_HEX_CHAR"
    by (simp_all add: HexToDec_def)
  have g5: "cs_byte (HexToDec 51) (HexToDec 52) \<noteq> rec_payload ?good ! 1" by code_simp
  have g6: "set_payload_byte 1 51 52 ?good = bytes ''0300300002347A1E''" by code_simp
  have g7: "unat (19 :: 32 word) \<le> length (bytes '':0300300002347A1E'' @ [13, 10])"
    by (simp add: bytes_def)
  have g8: "take (unat (19 :: 32 word)) (bytes '':0300300002347A1E'' @ [13, 10])
              = 58 # set_payload_byte 1 51 52 ?good @ [13, 10]"
    unfolding g6 by (simp add: bytes_def)
  have g9: "map_option returned_true
         (ihex_parser initial_parser (bytes '':0300300002337A1E'' @ [13, 10]) 19) = Some True"
    by code_simp
  from checksum_gate [OF st b1, of 19 "bytes '':0300300002337A1F'' @ [13, 10]" "[13, 10]"]
    b2 b3 b4
  have r1: "\<exists>e s'. ihex_parser initial_parser (bytes '':0300300002337A1F'' @ [13, 10]) 19
                = Some (Inl (e, s'))"
    by blast
  from checksum_gate [OF st g1, of 19 "bytes '':0300300002347A1E'' @ [13, 10]" "[13, 10]"
      1 51 52] g2 g3 g4 g5 g7 g8
  have r2: "\<exists>e s'. ihex_parser initial_parser (bytes '':0300300002347A1E'' @ [13, 10]) 19
                = Some (Inl (e, s'))"
    by blast
  from b1 b2 r1 g1 g2 g9 g6 r2 show ?thesis by blast
qed


section \<open>The address fields change only with an address record\<close>

lemma record_keeps_address:
  assumes "state s = START_CODE_STATE" and "record_shaped body"
    and "\<not> (type_accepted body \<and> (rec_type body = 2 \<or> rec_type body = 4)
            \<and> sum_list (decode_pairs body) = 0)"
  shows "address_hi (final_state (ihex_loop s (58 # body))) = address_hi s
     \<and> ex_segment_addr_mode (final_state (ihex_loop s (58 # body))) = ex_segment_addr_mode s"
proof (cases "type_accepted body \<and> sum_list (decode_pairs body) = 0")
  case False
  then have "\<exists>e s'. ihex_loop s (58 # body @ []) = Inl (e, s')
           \<and> address_hi s' = address_hi s
           \<and> ex_segment_addr_mode s' = ex_segment_addr_mode s"
    using record_bad_type [OF assms(1,2)] record_bad_sum [OF assms(1,2)] by blast
  then show ?thesis by (auto simp: final_state_def)
next
  case True
  with assms(3) have ty: "rec_type body \<noteq> 2" "rec_type body \<noteq> 4" by auto
  from True have acc: "type_accepted body" and zero: "sum_list (decode_pairs body) = 0"
    by simp_all
  from record_run [OF assms(1,2) acc, of "[]"] ty zero show ?thesis
    unfolding finish_at_checksum by (simp add: final_state_def at_checksum_def)
qed

lemma record_sets_address:
  assumes "state s = START_CODE_STATE" and "record_shaped body" and "type_accepted body"
    and "rec_type body = 2 \<or> rec_type body = 4"
    and "sum_list (decode_pairs body) = 0"
  shows "address_hi (final_state (ihex_loop s (58 # body)))
           = push_bit 8 (ucast ((rec_payload body
                       @ replicate (IHEX_DATA_SIZE - unat (rec_count body)) 0) ! 0))
             OR ucast ((rec_payload body
                       @ replicate (IHEX_DATA_SIZE - unat (rec_count body)) 0) ! 1)
     \<and> ex_segment_addr_mode (final_state (ihex_loop s (58 # body))) = (rec_type body = 2)"
  using record_accepted_address [OF assms, of "[]"] by (simp add: final_state_def)

text \<open>
  Claim C5. For every state and every byte, one iteration of the loop changes
  \<open>address_hi\<close> and \<open>ex_segment_addr_mode\<close> only when it runs in the state
  \<open>CHECKSUM_1_STATE\<close> with record type 2 or 4 and succeeds; then \<open>address_hi\<close> becomes
  the big-endian value of the first two bytes of the payload buffer and the mode
  becomes segmented for type 2, linear for type 4. Every other iteration, failing or
  not, in any state, leaves both as they were. For whole records fed from the start
  state: a record of type 2 or 4 with a right checksum and a payload of two bytes sets
  \<open>address_hi\<close> to the big-endian value of these bytes; every other record (data, end
  of file, start address, or any record that is rejected) leaves both fields as they
  were.
\<close>

theorem address_hi_sticky:
  "(if state s = CHECKSUM_1_STATE \<and> (record_type s = 2 \<or> record_type s = 4)
       \<and> returned_true (ihex_step s c)
    then address_hi (final_state (ihex_step s c))
           = push_bit 8 (ucast (data s ! 0)) OR ucast (data s ! 1)
         \<and> ex_segment_addr_mode (final_state (ihex_step s c)) = (record_type s = 2)
    else address_hi (final_state (ihex_step s c)) = address_hi s
         \<and> ex_segment_addr_mode (final_state (ihex_step s c)) = ex_segment_addr_mode s)
   \<and> (state s = START_CODE_STATE \<longrightarrow> record_shaped body \<longrightarrow>
        unat sz \<le> length steambuf \<longrightarrow> take (unat sz) steambuf = 58 # body \<longrightarrow>
        (\<exists>r. ihex_parser s steambuf sz = Some r
           \<and> (if type_accepted body \<and> (rec_type body = 2 \<or> rec_type body = 4)
                  \<and> sum_list (decode_pairs body) = 0
               then (\<forall>p0 p1. rec_payload body = [p0, p1] \<longrightarrow>
                       address_hi (final_state r) = push_bit 8 (ucast p0) OR ucast p1)
                    \<and> ex_segment_addr_mode (final_state r) = (rec_type body = 2)
               else address_hi (final_state r) = address_hi s
                    \<and> ex_segment_addr_mode (final_state r) = ex_segment_addr_mode s)))"
proof (intro conjI impI)
  show "if state s = CHECKSUM_1_STATE \<and> (record_type s = 2 \<or> record_type s = 4)
       \<and> returned_true (ihex_step s c)
    then address_hi (final_state (ihex_step s c))
           = push_bit 8 (ucast (data s ! 0)) OR ucast (data s ! 1)
         \<and> ex_segment_addr_mode (final_state (ihex_step s c)) = (record_type s = 2)
    else address_hi (final_state (ihex_step s c)) = address_hi s
         \<and> ex_segment_addr_mode (final_state (ihex_step s c)) = ex_segment_addr_mode s"
  proof (cases "state s = CHECKSUM_1_STATE")
    case False
    with step_keeps_addr [OF False, of c] show ?thesis by simp
  next
    case True
    show ?thesis
    proof (cases "HexToDec c = INVALID_HEX_CHAR")
      case True
      with \<open>state s = CHECKSUM_1_STATE\<close> show ?thesis
        by (simp add: step_invalid_hex final_state_def returned_true_def)
    next
      case False
      with \<open>state s = CHECKSUM_1_STATE\<close> finish_record_addr [of "checksum_update (HexToDec c) s"]
      show ?thesis by (simp add: step_CHECKSUM_1)
    qed
  qed
next
  assume st: "state s = START_CODE_STATE" and sh: "record_shaped body"
    and sz: "unat sz \<le> length steambuf" and buf: "take (unat sz) steambuf = 58 # body"
  let ?r = "ihex_loop s (58 # body)"
  from sz buf have r: "ihex_parser s steambuf sz = Some ?r" by (simp add: ihex_parser_def)
  have "if type_accepted body \<and> (rec_type body = 2 \<or> rec_type body = 4)
                  \<and> sum_list (decode_pairs body) = 0
               then (\<forall>p0 p1. rec_payload body = [p0, p1] \<longrightarrow>
                       address_hi (final_state ?r) = push_bit 8 (ucast p0) OR ucast p1)
                    \<and> ex_segment_addr_mode (final_state ?r) = (rec_type body = 2)
               else address_hi (final_state ?r) = address_hi s
                    \<and> ex_segment_addr_mode (final_state ?r) = ex_segment_addr_mode s"
  proof (cases "type_accepted body \<and> (rec_type body = 2 \<or> rec_type body = 4)
                  \<and> sum_list (decode_pairs body) = 0")
    case True
    then have "address_hi (final_state ?r)
           = push_bit 8 (ucast ((rec_payload body
                       @ replicate (IHEX_DATA_SIZE - unat (rec_count body)) 0) ! 0))
             OR ucast ((rec_payload body
                       @ replicate (IHEX_DATA_SIZE - unat (rec_count body)) 0) ! 1)
     \<and> ex_segment_addr_mode (final_state ?r) = (rec_type body = 2)"
      by (intro record_sets_address [OF st sh]) simp_all
    then show ?thesis
      unfolding if_P [OF True] by (auto simp del: ihex_loop.simps)
  next
    case False
    show ?thesis
      unfolding if_not_P [OF False] by (rule record_keeps_address [OF st sh False])
  qed
  with r show "\<exists>r. ihex_parser s steambuf sz = Some r
           \<and> (if type_accepted body \<and> (rec_type body = 2 \<or> rec_type body = 4)
                  \<and> sum_list (decode_pairs body) = 0
               then (\<forall>p0 p1. rec_payload body = [p0, p1] \<longrightarrow>
                       address_hi (final_state r) = push_bit 8 (ucast p0) OR ucast p1)
                    \<and> ex_segment_addr_mode (final_state r) = (rec_type body = 2)
               else address_hi (final_state r) = address_hi s
                    \<and> ex_segment_addr_mode (final_state r) = ex_segment_addr_mode s)"
    by blast
qed


text \<open>
  The last checksum digit of \<open>":020000021000EC"\<close> sets \<open>address_hi\<close> to \<open>0x1000\<close> and
  the mode to segmented; a data record fed afterwards leaves both.
\<close>

theorem address_hi_sticky_witness:
  "state (final_state (ihex_loop initial_parser (bytes '':020000021000E''))) = CHECKSUM_1_STATE
   \<and> record_type (final_state (ihex_loop initial_parser (bytes '':020000021000E''))) = 2
   \<and> returned_true
         (ihex_step (final_state (ihex_loop initial_parser (bytes '':020000021000E''))) 67)
   \<and> address_hi (final_state
         (ihex_step (final_state (ihex_loop initial_parser (bytes '':020000021000E''))) 67))
       = 0x1000
   \<and> ex_segment_addr_mode (final_state
         (ihex_step (final_state (ihex_loop initial_parser (bytes '':020000021000E''))) 67))
   \<and> state (final_state (ihex_loop initial_parser (bytes '':020000021000EC'' @ [13, 10])))
       = START_CODE_STATE
   \<and> (\<exists>r. ihex_parser
            (final_state (ihex_loop initial_parser (bytes '':020000021000EC'' @ [13, 10])))
            (bytes '':01002000558A'') 13 = Some r
          \<and> returned_true r
          \<and> address_hi (final_state r) = 0x1000
          \<and> ex_segment_addr_mode (final_state r))"
proof -
  let ?s1 = "final_state (ihex_loop initial_parser (bytes '':020000021000E''))"
  let ?s2 = "final_state (ihex_loop initial_parser (bytes '':020000021000EC'' @ [13, 10]))"
  let ?dat = "bytes ''01002000558A''"
  have a1: "state ?s1 = CHECKSUM_1_STATE" by code_simp
  have a2: "record_type ?s1 = 2" by code_simp
  have a3: "returned_true (ihex_step ?s1 67)" by code_simp
  have a4: "data ?s1 ! 0 = 0x10" "data ?s1 ! 1 = 0" by code_simp+
  from address_hi_sticky [where s = ?s1 and c = 67] a1 a2 a3
  have "address_hi (final_state (ihex_step ?s1 67))
          = push_bit 8 (ucast (data ?s1 ! 0)) OR ucast (data ?s1 ! 1)
        \<and> ex_segment_addr_mode (final_state (ihex_step ?s1 67))"
    by simp
  then have step: "address_hi (final_state (ihex_step ?s1 67)) = 0x1000
        \<and> ex_segment_addr_mode (final_state (ihex_step ?s1 67))"
    unfolding a4 by simp
  have b1: "state ?s2 = START_CODE_STATE" by code_simp
  have b2: "record_shaped ?dat" by code_simp
  have b3: "unat (13 :: 32 word) \<le> length (bytes '':01002000558A'')" by (simp add: bytes_def)
  have b4: "take (unat (13 :: 32 word)) (bytes '':01002000558A'') = 58 # ?dat"
    by (simp add: bytes_def)
  have b5: "rec_type ?dat = 0" by code_simp
  have b6: "address_hi ?s2 = 0x1000" "ex_segment_addr_mode ?s2" by code_simp+
  have b7: "map_option returned_true (ihex_parser ?s2 (bytes '':01002000558A'') 13) = Some True"
    by code_simp
  from address_hi_sticky [where s = ?s2 and body = ?dat and sz = 13
      and steambuf = "bytes '':01002000558A''"] b1 b2 b3 b4
  obtain r where r: "ihex_parser ?s2 (bytes '':01002000558A'') 13 = Some r"
    and k: "if type_accepted ?dat \<and> (rec_type ?dat = 2 \<or> rec_type ?dat = 4)
                  \<and> sum_list (decode_pairs ?dat) = 0
               then (\<forall>p0 p1. rec_payload ?dat = [p0, p1] \<longrightarrow>
                       address_hi (final_state r) = push_bit 8 (ucast p0) OR ucast p1)
                    \<and> ex_segment_addr_mode (final_state r) = (rec_type ?dat = 2)
               else address_hi (final_state r) = address_hi ?s2
                    \<and> ex_segment_addr_mode (final_state r) = ex_segment_addr_mode ?s2"
    by blast
  from k b5 b6 have "address_hi (final_state r) = 0x1000 \<and> ex_segment_addr_mode (final_state r)"
    by simp
  moreover from r b7 have "returned_true r" by simp
  ultimately show ?thesis using a1 a2 a3 step b1 r by blast
qed

end
